theory Spec2Isabelle
  imports Main "HOL-Library.AList"
begin

section \<open>JSON values and the two library functions the cache relies on\<close>

text \<open>
  The cache of \<^verbatim>\<open>query-server.js\<close> stores whatever \<^verbatim>\<open>JSON.parse\<close> returns and writes
  it back with \<^verbatim>\<open>JSON.stringify\<close>. Values are modelled by the datatype below. Strings
  are lists of code units (\<^typ>\<open>char\<close>); numbers are the integers that JavaScript
  represents exactly (magnitude at most \<open>2^53 - 1\<close>). An object is the list of its
  properties in insertion order.
\<close>

datatype json =
    JNull
  | JBool bool
  | JNum int
  | JStr string
  | JArr "json list"
  | JObj "(string \<times> json) list"

datatype error =
    SyntaxError    \<comment> \<open>thrown by \<^verbatim>\<open>JSON.parse\<close>\<close>
  | ENOENT         \<comment> \<open>no such file or directory\<close>
  | ENOTDIR        \<comment> \<open>a path component is not a directory\<close>
  | EISDIR         \<comment> \<open>the path names a directory\<close>
  | EACCES         \<comment> \<open>the operating system refuses the operation\<close>
  | Unmodelled     \<comment> \<open>the JSON text uses a token outside the modelled fragment; no verdict\<close>
  | OutOfFuel      \<comment> \<open>never returned by \<open>JSON_parse\<close>, see \<open>JSON_parse_fuel\<close>\<close>

text \<open>JavaScript's \<^verbatim>\<open>if (x)\<close> on a JSON value.\<close>

fun truthy :: "json \<Rightarrow> bool" where
  "truthy JNull = False"
| "truthy (JBool b) = b"
| "truthy (JNum n) = (n \<noteq> 0)"
| "truthy (JStr s) = (s \<noteq> [])"
| "truthy (JArr vs) = True"
| "truthy (JObj kvs) = True"

subsection \<open>Characters\<close>

text \<open>Code units and numbers are computed with in \<^typ>\<open>int\<close>.\<close>

definition code :: "char \<Rightarrow> int" where
  "code c = of_char c"

definition is_digit :: "char \<Rightarrow> bool" where
  "is_digit c = (48 \<le> code c \<and> code c \<le> 57)"

definition digit_char :: "int \<Rightarrow> char" where
  "digit_char d = char_of (48 + d)"

definition digit_val :: "char \<Rightarrow> int" where
  "digit_val c = code c - 48"

definition hex_digit :: "int \<Rightarrow> char" where
  "hex_digit d = (if d < 10 then char_of (48 + d) else char_of (87 + d))"

definition hex_val :: "char \<Rightarrow> int option" where
  "hex_val c =
     (let n = code c in
      if 48 \<le> n \<and> n \<le> 57 then Some (n - 48)
      else if 97 \<le> n \<and> n \<le> 102 then Some (n - 87)
      else if 65 \<le> n \<and> n \<le> 70 then Some (n - 55)
      else None)"

definition is_ws :: "char \<Rightarrow> bool" where
  "is_ws c = (c = CHR '' '' \<or> c = CHR 0x09 \<or> c = CHR 0x0A \<or> c = CHR 0x0D)"

definition skip_ws :: "string \<Rightarrow> string" where
  "skip_ws cs = dropWhile is_ws cs"

subsection \<open>\<^verbatim>\<open>JSON.stringify(value, null, gap)\<close>\<close>

text \<open>
  \<^verbatim>\<open>QuoteJSONString\<close>: the two-character escapes, \<^verbatim>\<open>\u00XX\<close> for the other control
  characters, every other code unit as it is.
\<close>

definition escape_char :: "char \<Rightarrow> string" where
  "escape_char c =
     (if c = CHR 0x22 then [CHR 0x5C, CHR 0x22]
      else if c = CHR 0x5C then [CHR 0x5C, CHR 0x5C]
      else if c = CHR 0x08 then [CHR 0x5C, CHR ''b'']
      else if c = CHR 0x0C then [CHR 0x5C, CHR ''f'']
      else if c = CHR 0x0A then [CHR 0x5C, CHR ''n'']
      else if c = CHR 0x0D then [CHR 0x5C, CHR ''r'']
      else if c = CHR 0x09 then [CHR 0x5C, CHR ''t'']
      else if code c < 32 then
        [CHR 0x5C, CHR ''u'', CHR ''0'', CHR ''0'',
         hex_digit (code c div 16), hex_digit (code c mod 16)]
      else [c])"

definition quote :: "string \<Rightarrow> string" where
  "quote s = CHR 0x22 # concat (map escape_char s) @ [CHR 0x22]"

text \<open>The decimal digits of a non-negative integer.\<close>

function digits :: "int \<Rightarrow> string" where
  "digits n = (if n < 10 then [digit_char n] else digits (n div 10) @ [digit_char (n mod 10)])"
  by pat_completeness auto
termination
  by (relation "measure nat") auto

declare digits.simps [simp del]

definition number_to_string :: "int \<Rightarrow> string" where
  "number_to_string i = (if i < 0 then CHR ''-'' # digits (- i) else digits i)"

text \<open>\<^verbatim>\<open>Array.prototype.join\<close> on strings.\<close>

fun join :: "string \<Rightarrow> string list \<Rightarrow> string" where
  "join sep [] = []"
| "join sep [x] = x"
| "join sep (x # y # ys) = x @ sep @ join sep (y # ys)"

text \<open>
  With an empty gap nothing is inserted between tokens; otherwise every element starts
  on a new line, indented by the current indentation.
\<close>

definition newline :: "string \<Rightarrow> string \<Rightarrow> string" where
  "newline gap ind = (if gap = [] then [] else CHR 0x0A # ind)"

definition colon :: "string \<Rightarrow> string" where
  "colon gap = (if gap = [] then '':'' else '': '')"

fun serialize :: "string \<Rightarrow> string \<Rightarrow> json \<Rightarrow> string" where
  "serialize gap ind JNull = ''null''"
| "serialize gap ind (JBool b) = (if b then ''true'' else ''false'')"
| "serialize gap ind (JNum n) = number_to_string n"
| "serialize gap ind (JStr s) = quote s"
| "serialize gap ind (JArr vs) =
     (if vs = [] then ''[]''
      else ''['' @ newline gap (ind @ gap)
           @ join ('','' @ newline gap (ind @ gap)) (map (serialize gap (ind @ gap)) vs)
           @ newline gap ind @ '']'')"
| "serialize gap ind (JObj kvs) =
     (if kvs = [] then ''{}''
      else ''{'' @ newline gap (ind @ gap)
           @ join ('','' @ newline gap (ind @ gap))
               (map (\<lambda>(k, v). quote k @ colon gap @ serialize gap (ind @ gap) v) kvs)
           @ newline gap ind @ ''}'')"

definition JSON_stringify :: "json \<Rightarrow> string" where
  "JSON_stringify v = serialize [] [] v"

definition JSON_stringify2 :: "json \<Rightarrow> string" where
  "JSON_stringify2 v = serialize ''  '' [] v"

subsection \<open>\<^verbatim>\<open>JSON.parse\<close>\<close>

text \<open>
  A recursive-descent parser for the JSON grammar of ECMA-404. Three kinds of token are
  outside the modelled fragment and make the parser answer \<open>Unmodelled\<close>: a number with
  a fraction or an exponent or beyond \<open>2^53 - 1\<close> (an IEEE double), an escape
  \<^verbatim>\<open>\uXXXX\<close> of a code unit above \<open>0x7F\<close>, and an object key that is a canonical
  array index (JavaScript enumerates such keys first).
\<close>

definition unescape :: "char \<Rightarrow> char option" where
  "unescape e =
     (if e = CHR 0x22 then Some (CHR 0x22)
      else if e = CHR 0x5C then Some (CHR 0x5C)
      else if e = CHR ''/'' then Some (CHR ''/'')
      else if e = CHR ''b'' then Some (CHR 0x08)
      else if e = CHR ''f'' then Some (CHR 0x0C)
      else if e = CHR ''n'' then Some (CHR 0x0A)
      else if e = CHR ''r'' then Some (CHR 0x0D)
      else if e = CHR ''t'' then Some (CHR 0x09)
      else None)"

definition hex4 :: "char \<Rightarrow> char \<Rightarrow> char \<Rightarrow> char \<Rightarrow> int option" where
  "hex4 a b c d =
     (case (hex_val a, hex_val b, hex_val c, hex_val d) of
        (Some x, Some y, Some z, Some w) \<Rightarrow> Some (((x * 16 + y) * 16 + z) * 16 + w)
      | _ \<Rightarrow> None)"

definition cons_result :: "char \<Rightarrow> error + (string \<times> string) \<Rightarrow> error + (string \<times> string)" where
  "cons_result c r = (case r of Inl e \<Rightarrow> Inl e | Inr (s, rest) \<Rightarrow> Inr (c # s, rest))"

text \<open>The characters of a string literal, after its opening quote.\<close>

fun parse_chars :: "string \<Rightarrow> error + (string \<times> string)" where
  "parse_chars [] = Inl SyntaxError"
| "parse_chars (c # cs) =
     (if c = CHR 0x22 then Inr ([], cs)
      else if c = CHR 0x5C then
        (case cs of
           [] \<Rightarrow> Inl SyntaxError
         | e # cs1 \<Rightarrow>
             if e = CHR ''u'' then
               (case cs1 of
                  h1 # h2 # h3 # h4 # cs2 \<Rightarrow>
                    (case hex4 h1 h2 h3 h4 of
                       None \<Rightarrow> Inl SyntaxError
                     | Some n \<Rightarrow>
                         if n < 128 then cons_result (char_of n) (parse_chars cs2)
                         else Inl Unmodelled)
                | _ \<Rightarrow> Inl SyntaxError)
             else
               (case unescape e of
                  None \<Rightarrow> Inl SyntaxError
                | Some x \<Rightarrow> cons_result x (parse_chars cs1)))
      else if code c < 32 then Inl SyntaxError
      else cons_result c (parse_chars cs))"

definition int_of_digits :: "string \<Rightarrow> int" where
  "int_of_digits ds = foldl (\<lambda>acc d. 10 * acc + digit_val d) 0 ds"

definition max_safe_integer :: int where
  "max_safe_integer = 9007199254740991"

text \<open>
  The integer part of a number token is \<^verbatim>\<open>0\<close> or a non-zero digit followed by digits;
  \<open>neg\<close> tells whether a minus sign came before it.
\<close>

definition parse_int :: "bool \<Rightarrow> string \<Rightarrow> error + (json \<times> string)" where
  "parse_int neg cs =
     (case cs of
        [] \<Rightarrow> Inl SyntaxError
      | d # r \<Rightarrow>
          if \<not> is_digit d then Inl SyntaxError
          else
            let ds = (if d = CHR ''0'' then [d] else d # takeWhile is_digit r);
                rest = (if d = CHR ''0'' then r else dropWhile is_digit r);
                n = int_of_digits ds
            in if rest \<noteq> [] \<and> hd rest \<in> {CHR ''.'', CHR ''e'', CHR ''E''} then Inl Unmodelled
               else if max_safe_integer < n then Inl Unmodelled
               else Inr (JNum (if neg then - n else n), rest))"

definition parse_number :: "string \<Rightarrow> error + (json \<times> string)" where
  "parse_number cs =
     (case cs of
        [] \<Rightarrow> Inl SyntaxError
      | c # r \<Rightarrow> if c = CHR ''-'' then parse_int True r else parse_int False cs)"

definition parse_literal :: "string \<Rightarrow> error + (json \<times> string)" where
  "parse_literal cs =
     (if take 4 cs = ''null'' then Inr (JNull, drop 4 cs)
      else if take 4 cs = ''true'' then Inr (JBool True, drop 4 cs)
      else if take 5 cs = ''false'' then Inr (JBool False, drop 5 cs)
      else Inl SyntaxError)"

text \<open>A key that JavaScript treats as an array index: \<^verbatim>\<open>0\<close>, or digits without a leading zero.\<close>

definition index_key :: "string \<Rightarrow> bool" where
  "index_key k = (k \<noteq> [] \<and> list_all is_digit k \<and> (k = ''0'' \<or> hd k \<noteq> CHR ''0''))"

text \<open>
  The first argument bounds the number of nested calls; \<open>JSON_parse\<close> passes more than
  twice the length of the text, which is enough since two nested calls consume a character.
  \<open>parse_elements\<close> runs after \<^verbatim>\<open>[\<close> of a non-empty array, \<open>parse_members\<close> after
  \<^verbatim>\<open>{\<close> of a non-empty object; a repeated key overwrites the property in place.
\<close>

fun parse_value :: "nat \<Rightarrow> string \<Rightarrow> error + (json \<times> string)"
  and parse_elements :: "nat \<Rightarrow> json list \<Rightarrow> string \<Rightarrow> error + (json \<times> string)"
  and parse_members :: "nat \<Rightarrow> (string \<times> json) list \<Rightarrow> string \<Rightarrow> error + (json \<times> string)"
where
  "parse_value 0 cs = Inl OutOfFuel"
| "parse_value (Suc n) cs =
     (case skip_ws cs of
        [] \<Rightarrow> Inl SyntaxError
      | c # r \<Rightarrow>
          if c = CHR ''{'' then
            (case skip_ws r of
               [] \<Rightarrow> Inl SyntaxError
             | c1 # r1 \<Rightarrow> if c1 = CHR ''}'' then Inr (JObj [], r1) else parse_members n [] r)
          else if c = CHR ''['' then
            (case skip_ws r of
               [] \<Rightarrow> Inl SyntaxError
             | c1 # r1 \<Rightarrow> if c1 = CHR '']'' then Inr (JArr [], r1) else parse_elements n [] r)
          else if c = CHR 0x22 then
            (case parse_chars r of Inl e \<Rightarrow> Inl e | Inr (s, r1) \<Rightarrow> Inr (JStr s, r1))
          else if c = CHR ''-'' \<or> is_digit c then parse_number (c # r)
          else parse_literal (c # r))"
| "parse_elements 0 acc cs = Inl OutOfFuel"
| "parse_elements (Suc n) acc cs =
     (case parse_value n cs of
        Inl e \<Rightarrow> Inl e
      | Inr (v, r) \<Rightarrow>
          (case skip_ws r of
             [] \<Rightarrow> Inl SyntaxError
           | c # r1 \<Rightarrow>
               if c = CHR '','' then parse_elements n (acc @ [v]) r1
               else if c = CHR '']'' then Inr (JArr (acc @ [v]), r1)
               else Inl SyntaxError))"
| "parse_members 0 acc cs = Inl OutOfFuel"
| "parse_members (Suc n) acc cs =
     (case skip_ws cs of
        [] \<Rightarrow> Inl SyntaxError
      | q # r \<Rightarrow>
          if q \<noteq> CHR 0x22 then Inl SyntaxError
          else
            (case parse_chars r of
               Inl e \<Rightarrow> Inl e
             | Inr (k, r1) \<Rightarrow>
                 (case skip_ws r1 of
                    [] \<Rightarrow> Inl SyntaxError
                  | c # r2 \<Rightarrow>
                      if c \<noteq> CHR '':'' then Inl SyntaxError
                      else
                        (case parse_value n r2 of
                           Inl e \<Rightarrow> Inl e
                         | Inr (v, r3) \<Rightarrow>
                             if index_key k then Inl Unmodelled
                             else
                               (case skip_ws r3 of
                                  [] \<Rightarrow> Inl SyntaxError
                                | d # r4 \<Rightarrow>
                                    if d = CHR '','' then parse_members n (AList.update k v acc) r4
                                    else if d = CHR ''}'' then Inr (JObj (AList.update k v acc), r4)
                                    else Inl SyntaxError)))))"

definition JSON_parse :: "string \<Rightarrow> error + json" where
  "JSON_parse text =
     (case parse_value (Suc (2 * length text)) text of
        Inl e \<Rightarrow> Inl e
      | Inr (v, rest) \<Rightarrow> if skip_ws rest = [] then Inr v else Inl SyntaxError)"

section \<open>The node: file system, console and bus\<close>

text \<open>
  The server of \<^verbatim>\<open>query-server.js\<close> acts on the local file system, the console and
  the NATS connection. They are gathered in one record that every operation takes and
  returns. A path names a directory or a file with its content; \<open>wdenied\<close> holds the
  paths that the operating system refuses to create or to overwrite (permissions, a
  read-only volume, an over-long name), \<open>rdenied\<close> the files that it refuses to open
  for reading. The trace lists the observable events in the order in which they happen;
  \<open>OriginFetch\<close> marks the statement that stands for the database query.
\<close>

datatype fs_entry = Dir | File string

datatype event =
    ConsoleLog string
  | ConsoleError string
  | OriginFetch string
  | FileWrite string string
  | Publish string string

record world =
  entries :: "string \<rightharpoonup> fs_entry"
  wdenied :: "string set"
  rdenied :: "string set"
  trace :: "event list"

type_synonym 'a result = "(error + 'a) \<times> world"

definition emit :: "event \<Rightarrow> world \<Rightarrow> world" where
  "emit e w = w\<lparr>trace := trace w @ [e]\<rparr>"

subsection \<open>Strings and paths (\<^verbatim>\<open>String.prototype.split\<close>, \<^verbatim>\<open>path.join\<close> on POSIX)\<close>

fun split_on :: "char \<Rightarrow> string \<Rightarrow> string list" where
  "split_on d [] = [[]]"
| "split_on d (c # cs) =
     (if c = d then [] # split_on d cs
      else (case split_on d cs of [] \<Rightarrow> [[c]] | s # ss \<Rightarrow> (c # s) # ss))"

text \<open>
  \<^verbatim>\<open>normalizeString\<close> of Node's \<^verbatim>\<open>path\<close> module, on the segments of the path: empty
  segments and \<^verbatim>\<open>.\<close> vanish, \<^verbatim>\<open>..\<close> removes the segment before it; \<open>res\<close> is the
  result so far, last segment first.
\<close>

fun normalize_segments :: "bool \<Rightarrow> string list \<Rightarrow> string list \<Rightarrow> string list" where
  "normalize_segments allow res [] = rev res"
| "normalize_segments allow res (s # ss) =
     (if s = [] \<or> s = ''.'' then normalize_segments allow res ss
      else if s = ''..'' then
        (case res of
           [] \<Rightarrow> normalize_segments allow (if allow then [''..''] else []) ss
         | t # ts \<Rightarrow>
             if t = ''..'' then normalize_segments allow (if allow then ''..'' # res else res) ss
             else normalize_segments allow ts ss)
      else normalize_segments allow (s # res) ss)"

definition path_normalize :: "string \<Rightarrow> string" where
  "path_normalize p =
     (if p = [] then ''.''
      else
        let isAbsolute = (hd p = CHR ''/'');
            trailingSeparator = (last p = CHR ''/'');
            body = join ''/'' (normalize_segments (\<not> isAbsolute) [] (split_on (CHR ''/'') p))
        in if body = [] then (if isAbsolute then ''/'' else if trailingSeparator then ''./'' else ''.'')
           else (if isAbsolute then ''/'' else []) @ body @ (if trailingSeparator then ''/'' else []))"

definition path_join :: "string list \<Rightarrow> string" where
  "path_join args =
     (let joined = join ''/'' (filter (\<lambda>a. a \<noteq> []) args)
      in if joined = [] then ''.'' else path_normalize joined)"

subsection \<open>The file system calls of \<^verbatim>\<open>fs\<close>\<close>

definition is_dir :: "world \<Rightarrow> string \<Rightarrow> bool" where
  "is_dir w p = (p = ''/'' \<or> entries w p = Some Dir)"

definition existsSync :: "world \<Rightarrow> string \<Rightarrow> bool" where
  "existsSync w p = (p = ''/'' \<or> entries w p \<noteq> None)"

text \<open>The directory that holds the entry of an absolute path, and the chain of directories above it.\<close>

definition segments :: "string \<Rightarrow> string list" where
  "segments p = filter (\<lambda>s. s \<noteq> []) (split_on (CHR ''/'') p)"

definition parent_dir :: "string \<Rightarrow> string" where
  "parent_dir p = CHR ''/'' # join ''/'' (butlast (segments p))"

definition ancestors :: "string \<Rightarrow> string list" where
  "ancestors p = map (\<lambda>n. CHR ''/'' # join ''/'' (take n (segments p))) [1 ..< Suc (length (segments p))]"

text \<open>\<^verbatim>\<open>fs.mkdirSync(p, { recursive: true })\<close> creates the missing directories from the root down.\<close>

fun mkdirs :: "world \<Rightarrow> string list \<Rightarrow> unit result" where
  "mkdirs w [] = (Inr (), w)"
| "mkdirs w (d # ds) =
     (case entries w d of
        Some Dir \<Rightarrow> mkdirs w ds
      | Some (File c) \<Rightarrow> (Inl ENOTDIR, w)
      | None \<Rightarrow>
          if d \<in> wdenied w then (Inl EACCES, w)
          else mkdirs (w\<lparr>entries := (entries w)(d \<mapsto> Dir)\<rparr>) ds)"

definition mkdirSync_recursive :: "world \<Rightarrow> string \<Rightarrow> unit result" where
  "mkdirSync_recursive w p = mkdirs w (ancestors p)"

text \<open>
  \<^verbatim>\<open>fs.writeFileSync(p, content)\<close> creates the file or replaces its content. A file
  that the call creates is readable; one that it overwrites keeps its mode.
\<close>

definition writeFileSync :: "world \<Rightarrow> string \<Rightarrow> string \<Rightarrow> unit result" where
  "writeFileSync w p content =
     (if is_dir w p then (Inl EISDIR, w)
      else if \<not> is_dir w (parent_dir p) then
        (Inl (if entries w (parent_dir p) = None then ENOENT else ENOTDIR), w)
      else if p \<in> wdenied w then (Inl EACCES, w)
      else (Inr (), emit (FileWrite p content)
                      (w\<lparr>entries := (entries w)(p \<mapsto> File content),
                         rdenied := (if entries w p = None then rdenied w - {p} else rdenied w)\<rparr>)))"

definition readFileSync :: "world \<Rightarrow> string \<Rightarrow> error + string" where
  "readFileSync w p =
     (case entries w p of
        Some (File content) \<Rightarrow> if p \<in> rdenied w then Inl EACCES else Inr content
      | Some Dir \<Rightarrow> Inl EISDIR
      | None \<Rightarrow> Inl (if p = ''/'' then EISDIR else ENOENT))"

subsection \<open>Console and NATS connection\<close>

definition console_log :: "string \<Rightarrow> world \<Rightarrow> world" where
  "console_log line w = emit (ConsoleLog line) w"

definition console_error :: "string \<Rightarrow> world \<Rightarrow> world" where
  "console_error line w = emit (ConsoleError line) w"

text \<open>\<^verbatim>\<open>StringCodec\<close> turns a string into bytes and back; payloads are kept as strings here.\<close>

definition sc_encode :: "string \<Rightarrow> string" where
  "sc_encode s = s"

definition sc_decode :: "string \<Rightarrow> string" where
  "sc_decode b = b"

text \<open>\<^verbatim>\<open>nc.publish\<close> hands the message to the connection and returns.\<close>

definition nc_publish :: "string \<Rightarrow> string \<Rightarrow> world \<Rightarrow> world" where
  "nc_publish subj payload w = emit (Publish subj payload) w"

section \<open>The program\<close>

subsection \<open>\<^verbatim>\<open>ensureCacheDir\<close>, \<^verbatim>\<open>writeOrderToFile\<close>, \<^verbatim>\<open>readOrderFromFile\<close>\<close>

definition ensureCacheDir :: "world \<Rightarrow> string result" where
  "ensureCacheDir w =
     (let cacheDir = path_join [''/tmp'', ''cache'', ''orders''] in
      if \<not> existsSync w cacheDir then
        (case mkdirSync_recursive w cacheDir of
           (Inl e, w1) \<Rightarrow> (Inl e, w1)
         | (Inr u, w1) \<Rightarrow> (Inr cacheDir, w1))
      else (Inr cacheDir, w))"

definition writeOrderToFile :: "world \<Rightarrow> string \<Rightarrow> json \<Rightarrow> unit result" where
  "writeOrderToFile w orderId data =
     (case ensureCacheDir w of
        (Inl e, w1) \<Rightarrow> (Inl e, w1)
      | (Inr cacheDir, w1) \<Rightarrow>
          let filePath = path_join [cacheDir, orderId @ ''.json'']
          in writeFileSync w1 filePath (JSON_stringify2 data))"

text \<open>The JavaScript \<^verbatim>\<open>null\<close> that the function returns for a missing file is \<open>JNull\<close>.\<close>

definition readOrderFromFile :: "world \<Rightarrow> string \<Rightarrow> json result" where
  "readOrderFromFile w orderId =
     (case ensureCacheDir w of
        (Inl e, w1) \<Rightarrow> (Inl e, w1)
      | (Inr cacheDir, w1) \<Rightarrow>
          let filePath = path_join [cacheDir, orderId @ ''.json'']
          in if existsSync w1 filePath then
               (case readFileSync w1 filePath of
                  Inl e \<Rightarrow> (Inl e, w1)
                | Inr buffer \<Rightarrow>
                    (case JSON_parse buffer of
                       Inl e \<Rightarrow> (Inl e, w1)
                     | Inr v \<Rightarrow> (Inr v, w1)))
             else (Inr JNull, w1))"

subsection \<open>The subscription callback of \<^verbatim>\<open>connectNATS\<close>\<close>

record msg =
  subject :: string
  data :: string

text \<open>
  \<^verbatim>\<open>msg.subject.split('.')[2]\<close>. The identifier is only ever spliced into template
  strings, where \<^verbatim>\<open>undefined\<close> reads \<^verbatim>\<open>undefined\<close>.
\<close>

definition subject_orderId :: "string \<Rightarrow> string" where
  "subject_orderId subj =
     (let parts = split_on (CHR ''.'') subj
      in if 2 < length parts then parts ! 2 else ''undefined'')"

text \<open>
  The callback receives an error or a message. An exception that the body raises leaves
  the callback; nothing in it catches one.
\<close>

definition callback :: "world \<Rightarrow> string option \<Rightarrow> msg \<Rightarrow> unit result" where
  "callback w err m =
     (case err of
        Some e \<Rightarrow> (Inr (), console_error (''Error receiving message: '' @ e) w)
      | None \<Rightarrow>
          let decodedMessage = sc_decode (data m);
              orderId = subject_orderId (subject m);
              w1 = console_log (''Received message for order '' @ orderId @ '': '' @ decodedMessage) w
          in (case JSON_parse decodedMessage of
                Inl e \<Rightarrow> (Inl e, w1)
              | Inr v \<Rightarrow> writeOrderToFile w1 orderId v))"

subsection \<open>The resolver \<^verbatim>\<open>getOrder\<close>\<close>

definition orderFromDB :: "string \<Rightarrow> json" where
  "orderFromDB orderId =
     JObj [(''id'', JStr orderId),
           (''customer'', JStr ''John Doe''),
           (''product'', JStr ''Laptop''),
           (''quantity'', JNum 2),
           (''status'', JStr ''shipped'')]"

text \<open>
  The body has no \<^verbatim>\<open>await\<close>: it runs from its first statement to its \<^verbatim>\<open>return\<close>
  or to the exception without any other callback of the process in between.
\<close>

definition getOrder :: "world \<Rightarrow> string \<Rightarrow> json result" where
  "getOrder w orderId =
     (let subj = ''cache.orders.'' @ orderId in
      case readOrderFromFile w orderId of
        (Inl e, w1) \<Rightarrow> (Inl e, w1)
      | (Inr cachedOrder, w1) \<Rightarrow>
          if truthy cachedOrder then
            (Inr cachedOrder, console_log (''Order '' @ orderId @ '' found in local cache.'') w1)
          else
            let w2 = console_log (''Cache miss for order '' @ orderId @ '', fetching from database...'') w1;
                w3 = emit (OriginFetch orderId) w2
            in (case writeOrderToFile w3 orderId (orderFromDB orderId) of
                  (Inl e, w4) \<Rightarrow> (Inl e, w4)
                | (Inr u, w4) \<Rightarrow>
                    let encodedOrder = sc_encode (JSON_stringify (orderFromDB orderId));
                        w5 = nc_publish subj encodedOrder w4;
                        w6 = console_log (''Published order '' @ orderId @ '' to subject '' @ subj) w5
                    in (Inr (orderFromDB orderId), w6)))"

section \<open>Notions used by the statements\<close>

text \<open>The file that holds the entry of a key, and the events of the trace by kind.\<close>

definition order_file :: "string \<Rightarrow> string" where
  "order_file orderId = path_join [''/tmp/cache/orders'', orderId @ ''.json'']"

text \<open>The subject of a key and the three lines that \<open>getOrder\<close> prints.\<close>

definition order_subject :: "string \<Rightarrow> string" where
  "order_subject orderId = ''cache.orders.'' @ orderId"

definition hit_line :: "string \<Rightarrow> string" where
  "hit_line orderId = ''Order '' @ orderId @ '' found in local cache.''"

definition miss_line :: "string \<Rightarrow> string" where
  "miss_line orderId = ''Cache miss for order '' @ orderId @ '', fetching from database...''"

definition published_line :: "string \<Rightarrow> string" where
  "published_line orderId =
     ''Published order '' @ orderId @ '' to subject '' @ order_subject orderId"

definition fetches :: "world \<Rightarrow> string list" where
  "fetches w = concat (map (\<lambda>e. case e of OriginFetch k \<Rightarrow> [k] | _ \<Rightarrow> []) (trace w))"

definition published :: "world \<Rightarrow> (string \<times> string) list" where
  "published w = concat (map (\<lambda>e. case e of Publish s p \<Rightarrow> [(s, p)] | _ \<Rightarrow> []) (trace w))"

definition written :: "world \<Rightarrow> (string \<times> string) list" where
  "written w = concat (map (\<lambda>e. case e of FileWrite p c \<Rightarrow> [(p, c)] | _ \<Rightarrow> []) (trace w))"

text \<open>What \<open>readOrderFromFile\<close> returns once the cache directory is there.\<close>

definition read_entry :: "world \<Rightarrow> string \<Rightarrow> error + json" where
  "read_entry w K =
     (case entries w (order_file K) of
        None \<Rightarrow> Inr JNull
      | Some Dir \<Rightarrow> Inl EISDIR
      | Some (File c) \<Rightarrow> if order_file K \<in> rdenied w then Inl EACCES else JSON_parse c)"

text \<open>
  When the two writes of the program complete: the directories that \<open>ensureCacheDir\<close>
  needs are there or can be made, and the entry file can be created or overwritten.
\<close>

definition creatable :: "world \<Rightarrow> string \<Rightarrow> bool" where
  "creatable w d = (entries w d = Some Dir \<or> (entries w d = None \<and> d \<notin> wdenied w))"

definition cache_dir_available :: "world \<Rightarrow> bool" where
  "cache_dir_available w =
     (existsSync w ''/tmp/cache/orders''
      \<or> list_all (creatable w) [''/tmp'', ''/tmp/cache'', ''/tmp/cache/orders''])"

definition can_write :: "world \<Rightarrow> string \<Rightarrow> bool" where
  "can_write w p = (\<not> is_dir w p \<and> is_dir w (parent_dir p) \<and> p \<notin> wdenied w)"

definition write_completes :: "world \<Rightarrow> string \<Rightarrow> bool" where
  "write_completes w orderId =
     (cache_dir_available w \<and> can_write (snd (ensureCacheDir w)) (order_file orderId))"

text \<open>An order whose fields need escapes, a sign and \<^verbatim>\<open>null\<close>.\<close>

definition sample_order :: json where
  "sample_order =
     JObj [(''id'', JStr [CHR ''4'', CHR 0x22, CHR 0x0A, CHR 0x01, CHR 0x5C, CHR ''2'']),
           (''customer'', JNull),
           (''product'', JStr ''Laptop''),
           (''quantity'', JNum (- 3)),
           (''status'', JStr ''shipped'')]"

text \<open>A node whose disk holds nothing and refuses nothing.\<close>

definition empty_world :: world where
  "empty_world = \<lparr>entries = Map.empty, wdenied = {}, rdenied = {}, trace = []\<rparr>"

text \<open>A node with the cache directory and one entry file of the given content.\<close>

definition disk_with :: "string \<Rightarrow> string \<Rightarrow> world" where
  "disk_with orderId content =
     \<lparr>entries = [''/tmp'' \<mapsto> Dir, ''/tmp/cache'' \<mapsto> Dir, ''/tmp/cache/orders'' \<mapsto> Dir,
                 order_file orderId \<mapsto> File content],
      wdenied = {}, rdenied = {}, trace = []\<rparr>"



text \<open>A node with an empty disk on which the entry file of one key cannot be written.\<close>

definition refusing_world :: "string \<Rightarrow> world" where
  "refusing_world orderId =
     \<lparr>entries = Map.empty, wdenied = {order_file orderId}, rdenied = {}, trace = []\<rparr>"

text \<open>\<open>n\<close> lookups of the same key, one after the other, with their results.\<close>

fun lookups :: "nat \<Rightarrow> world \<Rightarrow> string \<Rightarrow> (error + json) list \<times> world" where
  "lookups 0 w orderId = ([], w)"
| "lookups (Suc n) w orderId =
     (case getOrder w orderId of
        (r, w1) \<Rightarrow> (case lookups n w1 orderId of (rs, w2) \<Rightarrow> (r # rs, w2)))"

text \<open>The delivery of a payload on the subject of a key.\<close>

definition delivery :: "string \<Rightarrow> string \<Rightarrow> msg" where
  "delivery orderId payload = \<lparr>subject = order_subject orderId, data = payload\<rparr>"

subsection \<open>Values that JavaScript can hold\<close>

text \<open>
  \<open>js_value\<close> singles out the values of the datatype that are JavaScript values of the
  modelled fragment: numbers are safe integers, the keys of an object are pairwise
  distinct and none is an array index.
\<close>

fun js_value :: "json \<Rightarrow> bool" where
  "js_value JNull = True"
| "js_value (JBool b) = True"
| "js_value (JNum n) = (\<bar>n\<bar> \<le> max_safe_integer)"
| "js_value (JStr s) = True"
| "js_value (JArr vs) = list_all js_value vs"
| "js_value (JObj kvs) =
     (distinct (map fst kvs) \<and> list_all (\<lambda>kv. \<not> index_key (fst kv) \<and> js_value (snd kv)) kvs)"

text \<open>The number of nested parser calls that reading a value back takes.\<close>

fun need :: "json \<Rightarrow> nat" where
  "need JNull = Suc 0"
| "need (JBool b) = Suc 0"
| "need (JNum n) = Suc 0"
| "need (JStr s) = Suc 0"
| "need (JArr vs) = Suc (sum_list (map (\<lambda>v. Suc (need v)) vs))"
| "need (JObj kvs) = Suc (sum_list (map (\<lambda>kv. Suc (need (snd kv))) kvs))"

text \<open>A character after which a number token is complete.\<close>

definition stop :: "char \<Rightarrow> bool" where
  "stop c = (\<not> is_digit c \<and> c \<noteq> CHR ''.'' \<and> c \<noteq> CHR ''e'' \<and> c \<noteq> CHR ''E'')"

definition num_end :: "string \<Rightarrow> bool" where
  "num_end rest = (case rest of [] \<Rightarrow> True | c # r \<Rightarrow> stop c)"

section \<open>Reading back what \<^verbatim>\<open>JSON.stringify\<close> wrote\<close>

subsection \<open>Characters and strings\<close>

lemma char_of_code [simp]: "char_of (code c) = c"
  by (simp add: code_def)

lemma code_range: "0 \<le> code c" "code c < 256"
proof -
  have "code c mod 256 = code c" by (simp add: code_def)
  then show "0 \<le> code c" "code c < 256"
    by (metis pos_mod_sign zero_less_numeral, metis pos_mod_bound zero_less_numeral)
qed

lemma hex_val_hex_digit: "0 \<le> d \<Longrightarrow> d < 16 \<Longrightarrow> hex_val (hex_digit d) = Some d"
  by (simp add: hex_val_def hex_digit_def Let_def code_def)

lemma hex4_escape:
  assumes "code c < 32"
  shows "hex4 (CHR ''0'') (CHR ''0'') (hex_digit (code c div 16)) (hex_digit (code c mod 16))
         = Some (code c)"
proof -
  have z: "hex_val (CHR ''0'') = Some 0" by (simp add: hex_val_def code_def)
  have a: "hex_val (hex_digit (code c div 16)) = Some (code c div 16)"
    using assms code_range[of c] by (intro hex_val_hex_digit) auto
  have b: "hex_val (hex_digit (code c mod 16)) = Some (code c mod 16)"
    by (intro hex_val_hex_digit) auto
  show ?thesis by (simp add: hex4_def z a b)
qed

lemma parse_chars_escape:
  "parse_chars (escape_char c @ xs) = cons_result c (parse_chars xs)"
proof -
  consider (q) "c = CHR 0x22" | (b) "c = CHR 0x5C" | (bs) "c = CHR 0x08" | (f) "c = CHR 0x0C"
    | (n) "c = CHR 0x0A" | (r) "c = CHR 0x0D" | (t) "c = CHR 0x09"
    | (ctl) "c \<notin> {CHR 0x22, CHR 0x5C, CHR 0x08, CHR 0x0C, CHR 0x0A, CHR 0x0D, CHR 0x09}" "code c < 32"
    | (lit) "c \<notin> {CHR 0x22, CHR 0x5C, CHR 0x08, CHR 0x0C, CHR 0x0A, CHR 0x0D, CHR 0x09}" "\<not> code c < 32"
    by blast
  then show ?thesis
  proof cases
    case ctl
    then show ?thesis
      using hex4_escape[of c] code_range[of c]
      by (simp add: escape_char_def)
  next
    case lit
    then show ?thesis by (simp add: escape_char_def)
  qed (simp_all add: escape_char_def unescape_def)
qed

lemma parse_chars_quote:
  "parse_chars (concat (map escape_char s) @ CHR 0x22 # rest) = Inr (s, rest)"
  by (induction s) (simp_all add: parse_chars_escape cons_result_def)

subsection \<open>Numbers\<close>

lemma digit_char_props:
  assumes "0 \<le> d" "d < 10"
  shows "is_digit (digit_char d)" "digit_val (digit_char d) = d"
    "(digit_char d = CHR ''0'') = (d = 0)"
proof -
  have c: "code (digit_char d) = 48 + d"
    using assms by (simp add: digit_char_def code_def)
  show "is_digit (digit_char d)" using assms by (simp add: is_digit_def c)
  show "digit_val (digit_char d) = d" by (simp add: digit_val_def c)
  have "code (CHR ''0'') = 48" by (simp add: code_def)
  then show "(digit_char d = CHR ''0'') = (d = 0)"
    using c by (metis add_cancel_right_right code_def of_char_eq_iff)
qed

lemma digit_char_0: "digit_char 0 = CHR ''0''"
  by code_simp

lemma digits_nonempty: "digits n \<noteq> []"
  by (subst digits.simps) simp

lemma digits_all: "0 \<le> n \<Longrightarrow> list_all is_digit (digits n)"
proof (induction n rule: digits.induct)
  case (1 n)
  show ?case
  proof (cases "n < 10")
    case True
    with 1 show ?thesis by (subst digits.simps) (simp add: digit_char_props)
  next
    case False
    with 1 show ?thesis by (subst digits.simps) (simp add: digit_char_props)
  qed
qed

lemma int_of_digits_snoc: "int_of_digits (xs @ [d]) = 10 * int_of_digits xs + digit_val d"
  by (simp add: int_of_digits_def)

lemma int_of_digits_digits: "0 \<le> n \<Longrightarrow> int_of_digits (digits n) = n"
proof (induction n rule: digits.induct)
  case (1 n)
  show ?case
  proof (cases "n < 10")
    case True
    with 1 show ?thesis
      by (subst digits.simps) (simp add: digit_char_props int_of_digits_def)
  next
    case False
    with 1 show ?thesis
      by (subst digits.simps) (simp add: digit_char_props int_of_digits_snoc)
  qed
qed

lemma hd_digits: "0 \<le> n \<Longrightarrow> (hd (digits n) = CHR ''0'') = (n = 0)"
proof (induction n rule: digits.induct)
  case (1 n)
  show ?case
  proof (cases "n < 10")
    case True
    with 1 show ?thesis by (subst digits.simps) (simp add: digit_char_props)
  next
    case False
    then have "0 \<le> n div 10" "n div 10 \<noteq> 0" by auto
    with 1 False show ?thesis
      by (subst digits.simps) (simp add: digits_nonempty)
  qed
qed

lemma takeWhile_digits:
  "list_all is_digit ds \<Longrightarrow> num_end rest \<Longrightarrow>
   takeWhile is_digit (ds @ rest) = ds \<and> dropWhile is_digit (ds @ rest) = rest"
  by (induction ds) (auto simp: num_end_def stop_def split: list.splits)

lemma parse_int_zero:
  assumes "num_end rest"
  shows "parse_int neg (CHR ''0'' # rest) = Inr (JNum 0, rest)"
proof -
  have "is_digit (CHR ''0'')" by (simp add: is_digit_def code_def)
  moreover have "int_of_digits ''0'' = 0" by (simp add: int_of_digits_def digit_val_def code_def)
  moreover have "\<not> max_safe_integer < 0" by (simp add: max_safe_integer_def)
  ultimately show ?thesis
    using assms unfolding parse_int_def
    by (cases rest) (simp_all add: Let_def num_end_def stop_def)
qed

lemma parse_int_nonzero:
  assumes "is_digit d" "d \<noteq> CHR ''0''"
    and "takeWhile is_digit x = r" "dropWhile is_digit x = rest"
    and "num_end rest" "\<not> max_safe_integer < int_of_digits (d # r)"
  shows "parse_int neg (d # x) =
         Inr (JNum (if neg then - int_of_digits (d # r) else int_of_digits (d # r)), rest)"
  using assms unfolding parse_int_def
  by (cases rest) (simp_all add: Let_def num_end_def stop_def)

lemma parse_int_digits:
  assumes "0 \<le> n" "n \<le> max_safe_integer" "num_end rest"
  shows "parse_int neg (digits n @ rest) = Inr (JNum (if neg then - n else n), rest)"
proof -
  obtain d r where dr: "digits n = d # r"
    using digits_nonempty[of n] by (cases "digits n") auto
  have all: "is_digit d" "list_all is_digit r"
    using digits_all[OF assms(1)] dr by simp_all
  have val: "int_of_digits (d # r) = n"
    using int_of_digits_digits[OF assms(1)] dr by simp
  show ?thesis
  proof (cases "d = CHR ''0''")
    case True
    then have "n = 0" using hd_digits[OF assms(1)] dr by simp
    moreover from this have "digits n = ''0''"
      by (subst digits.simps) (simp add: digit_char_0)
    ultimately show ?thesis
      using parse_int_zero[OF assms(3), of neg] by simp
  next
    case False
    have tw: "takeWhile is_digit (r @ rest) = r" "dropWhile is_digit (r @ rest) = rest"
      using takeWhile_digits[OF all(2) assms(3)] by simp_all
    have "\<not> max_safe_integer < int_of_digits (d # r)"
      using val assms(2) by simp
    from parse_int_nonzero[OF all(1) False tw assms(3) this, of neg]
    show ?thesis unfolding dr val by simp
  qed
qed

lemma number_to_string_hd:
  "\<exists>c r. number_to_string i = c # r \<and> (c = CHR ''-'' \<or> is_digit c)"
proof (cases "i < 0")
  case True
  then show ?thesis by (simp add: number_to_string_def)
next
  case False
  obtain d r where dr: "digits i = d # r"
    using digits_nonempty[of i] by (cases "digits i") auto
  have "is_digit d" using digits_all[of i] False dr by simp
  then show ?thesis using False dr by (simp add: number_to_string_def)
qed

lemma is_digit_not_minus: "is_digit d \<Longrightarrow> d \<noteq> CHR ''-''"
  by (auto simp: is_digit_def code_def)

lemma parse_number_roundtrip:
  assumes "\<bar>i\<bar> \<le> max_safe_integer" "num_end rest"
  shows "parse_number (number_to_string i @ rest) = Inr (JNum i, rest)"
proof (cases "i < 0")
  case True
  then show ?thesis
    using parse_int_digits[of "- i" rest True] assms
    by (simp add: parse_number_def number_to_string_def)
next
  case False
  obtain d r where dr: "digits i = d # r"
    using digits_nonempty[of i] by (cases "digits i") auto
  have "is_digit d" using digits_all[of i] False dr by simp
  then have "d \<noteq> CHR ''-''" by (rule is_digit_not_minus)
  then show ?thesis
    using parse_int_digits[of i rest False] assms False dr
    by (simp add: parse_number_def number_to_string_def)
qed

subsection \<open>White space and the first character of a value\<close>

lemma skip_ws_append: "list_all is_ws w \<Longrightarrow> skip_ws (w @ x) = skip_ws x"
  by (induction w) (simp_all add: skip_ws_def)

lemma skip_ws_start: "\<not> is_ws c \<Longrightarrow> skip_ws (c # x) = c # x"
  by (simp add: skip_ws_def)

lemma newline_ws:
  "list_all is_ws gap \<Longrightarrow> list_all is_ws ind \<Longrightarrow> list_all is_ws (newline gap ind)"
  by (simp add: newline_def is_ws_def)

lemma is_ws_stop: "is_ws c \<Longrightarrow> stop c"
  by (auto simp: is_ws_def stop_def is_digit_def code_def)

lemma num_end_ws: "list_all is_ws w \<Longrightarrow> stop c \<Longrightarrow> num_end (w @ c # x)"
  by (cases w) (simp_all add: num_end_def is_ws_stop)

lemma stop_punct: "stop (CHR '','')" "stop (CHR '']'')" "stop (CHR ''}'')"
  by (simp_all add: stop_def is_digit_def code_def)

lemma parse_value_skip: "list_all is_ws w \<Longrightarrow> parse_value n (w @ x) = parse_value n x"
  by (cases n) (simp_all add: skip_ws_append)

lemma parse_members_skip: "list_all is_ws w \<Longrightarrow> parse_members n acc (w @ x) = parse_members n acc x"
  by (cases n) (simp_all add: skip_ws_append)

lemma is_digit_start:
  "is_digit c \<or> c = CHR ''-'' \<Longrightarrow>
   \<not> is_ws c \<and> c \<noteq> CHR '']'' \<and> c \<noteq> CHR ''}'' \<and> c \<noteq> CHR ''{'' \<and> c \<noteq> CHR ''['' \<and> c \<noteq> CHR 0x22"
  by (auto simp: is_digit_def is_ws_def code_def)

lemma serialize_hd:
  "\<exists>c r. serialize gap ind v = c # r \<and> \<not> is_ws c \<and> c \<noteq> CHR '']'' \<and> c \<noteq> CHR ''}''"
proof (cases v)
  case (JNum i)
  then show ?thesis
    using number_to_string_hd[of i] is_digit_start by auto
qed (auto simp: is_ws_def quote_def)

lemma skip_ws_serialize: "skip_ws (serialize gap ind v @ x) = serialize gap ind v @ x"
  using serialize_hd[of gap ind v] by (auto simp: skip_ws_start)

subsection \<open>Scalars\<close>

lemma parse_value_null: "parse_value (Suc n) (''null'' @ rest) = Inr (JNull, rest)"
  by (simp add: skip_ws_def is_ws_def is_digit_def code_def parse_literal_def)

lemma parse_value_true: "parse_value (Suc n) (''true'' @ rest) = Inr (JBool True, rest)"
  by (simp add: skip_ws_def is_ws_def is_digit_def code_def parse_literal_def)

lemma parse_value_false: "parse_value (Suc n) (''false'' @ rest) = Inr (JBool False, rest)"
  by (simp add: skip_ws_def is_ws_def is_digit_def code_def parse_literal_def)

lemma parse_value_string: "parse_value (Suc n) (quote s @ rest) = Inr (JStr s, rest)"
  by (simp add: quote_def skip_ws_def is_ws_def parse_chars_quote)

lemma parse_value_number:
  assumes "\<bar>i\<bar> \<le> max_safe_integer" "num_end rest"
  shows "parse_value (Suc n) (number_to_string i @ rest) = Inr (JNum i, rest)"
proof -
  obtain c r where cr: "number_to_string i = c # r" "c = CHR ''-'' \<or> is_digit c"
    using number_to_string_hd[of i] by blast
  have "parse_value (Suc n) (c # r @ rest) = parse_number (c # r @ rest)"
    using cr(2) is_digit_start[of c] by (auto simp: skip_ws_start)
  then show ?thesis
    using parse_number_roundtrip[OF assms] cr(1) by simp
qed

subsection \<open>Arrays and objects\<close>

lemma parse_elements_join:
  assumes IH: "\<And>v m r. v \<in> set vs \<Longrightarrow> need v \<le> m \<Longrightarrow> num_end r \<Longrightarrow>
                 parse_value m (S v @ r) = Inr (v, r)"
    and ws: "list_all is_ws nl1" "list_all is_ws nl0"
    and ne: "vs \<noteq> []"
    and fuel: "sum_list (map (\<lambda>v. Suc (need v)) vs) \<le> m"
  shows "parse_elements m acc (nl1 @ join (CHR '','' # nl1) (map S vs) @ nl0 @ CHR '']'' # rest)
         = Inr (JArr (acc @ vs), rest)"
  using IH ne fuel
proof (induction vs arbitrary: m acc)
  case Nil
  then show ?case by simp
next
  case (Cons v vs)
  obtain m' where m: "m = Suc m'" using Cons.prems(3) by (cases m) auto
  have nv: "need v \<le> m'" using Cons.prems(3) m by simp
  show ?case
  proof (cases vs)
    case Nil
    have "parse_value m' (nl1 @ S v @ nl0 @ CHR '']'' # rest) = Inr (v, nl0 @ CHR '']'' # rest)"
      using Cons.prems(1)[of v m' "nl0 @ CHR '']'' # rest"] nv ws
      by (simp add: parse_value_skip num_end_ws stop_punct)
    then show ?thesis
      using Nil m ws by (simp add: skip_ws_append skip_ws_start is_ws_def)
  next
    case (Cons w ws')
    let ?tail = "nl1 @ join (CHR '','' # nl1) (map S vs) @ nl0 @ CHR '']'' # rest"
    have "parse_value m' (nl1 @ S v @ CHR '','' # ?tail) = Inr (v, CHR '','' # ?tail)"
      using Cons.prems(1)[of v m' "CHR '','' # ?tail"] nv ws
      by (simp add: parse_value_skip num_end_def stop_punct)
    moreover have "parse_elements m' (acc @ [v]) ?tail = Inr (JArr ((acc @ [v]) @ vs), rest)"
      using Cons.prems(3) m Cons
      by (intro Cons.IH) (auto intro: Cons.prems(1))
    ultimately show ?thesis
      using Cons m by (simp add: skip_ws_start is_ws_def)
  qed
qed

lemma update_fresh: "k \<notin> fst ` set acc \<Longrightarrow> AList.update k v acc = acc @ [(k, v)]"
  by (induction acc) auto

lemma parse_members_join:
  assumes IH: "\<And>kv m r. kv \<in> set kvs \<Longrightarrow> need (snd kv) \<le> m \<Longrightarrow> num_end r \<Longrightarrow>
                 parse_value m (S (snd kv) @ r) = Inr (snd kv, r)"
    and ws: "list_all is_ws nl1" "list_all is_ws nl0" "list_all is_ws sp"
    and ne: "kvs \<noteq> []"
    and keys: "distinct (map fst (acc @ kvs))" "list_all (\<lambda>kv. \<not> index_key (fst kv)) kvs"
    and fuel: "sum_list (map (\<lambda>kv. Suc (need (snd kv))) kvs) \<le> m"
  shows "parse_members m acc
           (nl1 @ join (CHR '','' # nl1) (map (\<lambda>(k, v). quote k @ CHR '':'' # sp @ S v) kvs)
            @ nl0 @ CHR ''}'' # rest)
         = Inr (JObj (acc @ kvs), rest)"
  using IH ne keys fuel
proof (induction kvs arbitrary: m acc)
  case Nil
  then show ?case by simp
next
  case (Cons kv kvs)
  obtain k v where kv: "kv = (k, v)" by (cases kv)
  obtain m' where m: "m = Suc m'" using Cons.prems(5) by (cases m) auto
  have nv: "need v \<le> m'" using Cons.prems(5) m kv by simp
  have fresh: "AList.update k v acc = acc @ [(k, v)]"
    using Cons.prems(3) kv by (intro update_fresh) auto
  have nik: "\<not> index_key k" using Cons.prems(4) kv by simp
  have key: "\<And>x. parse_chars (concat (map escape_char k) @ CHR 0x22 # x) = Inr (k, x)"
    by (rule parse_chars_quote)
  show ?case
  proof (cases kvs)
    case Nil
    have "parse_value m' (sp @ S v @ nl0 @ CHR ''}'' # rest) = Inr (v, nl0 @ CHR ''}'' # rest)"
      using Cons.prems(1)[of kv m' "nl0 @ CHR ''}'' # rest"] nv ws kv
      by (simp add: parse_value_skip num_end_ws stop_punct)
    then show ?thesis
      using Nil m ws kv fresh nik key
      by (simp add: skip_ws_append skip_ws_start is_ws_def quote_def)
  next
    case (Cons kw kws)
    let ?tail = "nl1 @ join (CHR '','' # nl1) (map (\<lambda>(k, v). quote k @ CHR '':'' # sp @ S v) kvs)
                 @ nl0 @ CHR ''}'' # rest"
    have "parse_value m' (sp @ S v @ CHR '','' # ?tail) = Inr (v, CHR '','' # ?tail)"
      using Cons.prems(1)[of kv m' "CHR '','' # ?tail"] nv ws kv
      by (simp add: parse_value_skip num_end_def stop_punct)
    moreover have "parse_members m' (acc @ [(k, v)]) ?tail = Inr (JObj ((acc @ [(k, v)]) @ kvs), rest)"
      using Cons.prems(3,4,5) m Cons kv
      by (intro Cons.IH) (auto intro: Cons.prems(1))
    ultimately show ?thesis
      using Cons m ws kv fresh nik key
      by (simp add: skip_ws_append skip_ws_start is_ws_def quote_def)
  qed
qed

lemma join_hd: "vs \<noteq> [] \<Longrightarrow> \<exists>x. join sep (map S vs) = S (hd vs) @ x"
proof (cases vs)
  case (Cons v ws)
  then show ?thesis by (cases ws) auto
qed simp

lemma parse_value_array:
  assumes ne: "vs \<noteq> []"
    and ws: "list_all is_ws nl1"
    and el: "parse_elements n [] (nl1 @ join sep (map (serialize gap ind1) vs) @ tail) = res"
  shows "parse_value (Suc n) (CHR ''['' # nl1 @ join sep (map (serialize gap ind1) vs) @ tail) = res"
proof -
  obtain x where x: "join sep (map (serialize gap ind1) vs) = serialize gap ind1 (hd vs) @ x"
    using join_hd[OF ne] by blast
  obtain c r where c: "serialize gap ind1 (hd vs) = c # r" "\<not> is_ws c" "c \<noteq> CHR '']''"
    using serialize_hd[of gap ind1 "hd vs"] by blast
  have "skip_ws (nl1 @ join sep (map (serialize gap ind1) vs) @ tail) = c # r @ x @ tail"
    using ws c x by (simp add: skip_ws_append skip_ws_start)
  then show ?thesis
    using c el by (simp add: skip_ws_start is_ws_def)
qed

lemma parse_value_object:
  assumes ne: "kvs \<noteq> []"
    and ws: "list_all is_ws nl1"
    and el: "parse_members n [] (nl1 @ join sep (map (\<lambda>(k, v). quote k @ M v) kvs) @ tail) = res"
  shows "parse_value (Suc n) (CHR ''{'' # nl1 @ join sep (map (\<lambda>(k, v). quote k @ M v) kvs) @ tail) = res"
proof -
  obtain x where x: "join sep (map (\<lambda>(k, v). quote k @ M v) kvs) = (\<lambda>(k, v). quote k @ M v) (hd kvs) @ x"
    using join_hd[OF ne, of sep "\<lambda>(k, v). quote k @ M v"] by blast
  obtain r where c: "(\<lambda>(k, v). quote k @ M v) (hd kvs) = CHR 0x22 # r"
    by (cases "hd kvs") (simp add: quote_def)
  have "skip_ws (nl1 @ join sep (map (\<lambda>(k, v). quote k @ M v) kvs) @ tail) = CHR 0x22 # r @ x @ tail"
    using ws c x by (simp add: skip_ws_append skip_ws_start is_ws_def)
  then show ?thesis
    using el by (simp add: skip_ws_start is_ws_def)
qed

lemma parse_value_serialize:
  assumes gap: "list_all is_ws gap"
  shows "js_value v \<Longrightarrow> list_all is_ws ind \<Longrightarrow> num_end rest \<Longrightarrow> need v \<le> n \<Longrightarrow>
         parse_value n (serialize gap ind v @ rest) = Inr (v, rest)"
proof (induction v arbitrary: ind rest n)
  case JNull
  then show ?case using parse_value_null by (cases n) auto
next
  case (JBool b)
  then show ?case using parse_value_true parse_value_false by (cases n) auto
next
  case (JNum i)
  then show ?case using parse_value_number[of i rest] by (cases n) auto
next
  case (JStr s)
  then show ?case using parse_value_string by (cases n) auto
next
  case (JArr vs)
  obtain m where n: "n = Suc m" using JArr.prems(4) by (cases n) auto
  show ?case
  proof (cases "vs = []")
    case True
    then show ?thesis by (simp add: n skip_ws_start is_ws_def)
  next
    case False
    let ?nl1 = "newline gap (ind @ gap)"
    let ?nl0 = "newline gap ind"
    have ws1: "list_all is_ws ?nl1" and ws0: "list_all is_ws ?nl0"
      using gap JArr.prems(2) by (simp_all add: newline_ws)
    have ind1: "list_all is_ws (ind @ gap)" using gap JArr.prems(2) by simp
    have el: "parse_elements m []
          (?nl1 @ join (CHR '','' # ?nl1) (map (serialize gap (ind @ gap)) vs) @ ?nl0 @ CHR '']'' # rest)
          = Inr (JArr ([] @ vs), rest)"
    proof (rule parse_elements_join[OF _ ws1 ws0 False])
      fix v k r
      assume "v \<in> set vs" "need v \<le> k" "num_end r"
      then show "parse_value k (serialize gap (ind @ gap) v @ r) = Inr (v, r)"
        using JArr.IH[of v "ind @ gap" r k] JArr.prems(1) ind1
        by (simp add: list_all_iff)
    next
      show "sum_list (map (\<lambda>v. Suc (need v)) vs) \<le> m"
        using JArr.prems(4) n by simp
    qed
    have "parse_value (Suc m)
            (CHR ''['' # ?nl1 @ join (CHR '','' # ?nl1) (map (serialize gap (ind @ gap)) vs)
              @ ?nl0 @ CHR '']'' # rest) = Inr (JArr ([] @ vs), rest)"
      by (rule parse_value_array[OF False ws1 el])
    then show ?thesis using False n by simp
  qed
next
  case (JObj kvs)
  obtain m where n: "n = Suc m" using JObj.prems(4) by (cases n) auto
  show ?case
  proof (cases "kvs = []")
    case True
    then show ?thesis by (simp add: n skip_ws_start is_ws_def)
  next
    case False
    let ?nl1 = "newline gap (ind @ gap)"
    let ?nl0 = "newline gap ind"
    let ?sp = "if gap = [] then [] else '' ''"
    let ?M = "\<lambda>v. CHR '':'' # ?sp @ serialize gap (ind @ gap) v"
    have ws1: "list_all is_ws ?nl1" and ws0: "list_all is_ws ?nl0"
      using gap JObj.prems(2) by (simp_all add: newline_ws)
    have wsp: "list_all is_ws ?sp" by (simp add: is_ws_def)
    have ind1: "list_all is_ws (ind @ gap)" using gap JObj.prems(2) by simp
    have mem: "(\<lambda>(k, v). quote k @ colon gap @ serialize gap (ind @ gap) v)
             = (\<lambda>(k, v). quote k @ ?M v)"
      by (auto simp: colon_def fun_eq_iff)
    have el: "parse_members m []
          (?nl1 @ join (CHR '','' # ?nl1)
                    (map (\<lambda>(k, v). quote k @ CHR '':'' # ?sp @ serialize gap (ind @ gap) v) kvs)
            @ ?nl0 @ CHR ''}'' # rest)
          = Inr (JObj ([] @ kvs), rest)"
    proof (rule parse_members_join[OF _ ws1 ws0 wsp False])
      fix kv k r
      assume a: "kv \<in> set kvs" "need (snd kv) \<le> k" "num_end r"
      obtain x y where kv: "kv = (x, y)" by (cases kv)
      have s: "y \<in> Basic_BNFs.snds kv" by (simp add: kv)
      have jv: "js_value y" using JObj.prems(1) a(1) kv by (auto simp: list_all_iff)
      have "need y \<le> k" using a(2) kv by simp
      from JObj.IH[OF a(1) s jv ind1 a(3) this]
      show "parse_value k (serialize gap (ind @ gap) (snd kv) @ r) = Inr (snd kv, r)"
        by (simp add: kv)
    next
      show "distinct (map fst ([] @ kvs))" using JObj.prems(1) by simp
      show "list_all (\<lambda>kv. \<not> index_key (fst kv)) kvs"
        using JObj.prems(1) by (simp add: list_all_iff)
      show "sum_list (map (\<lambda>kv. Suc (need (snd kv))) kvs) \<le> m"
        using JObj.prems(4) n by simp
    qed
    have "parse_value (Suc m)
            (CHR ''{'' # ?nl1 @ join (CHR '','' # ?nl1) (map (\<lambda>(k, v). quote k @ ?M v) kvs)
              @ ?nl0 @ CHR ''}'' # rest) = Inr (JObj ([] @ kvs), rest)"
      by (rule parse_value_object[OF False ws1 el])
    then show ?thesis using False n by (simp add: mem)
  qed
qed

lemma sum_need_le_join:
  assumes "\<And>x. x \<in> set xs \<Longrightarrow> f x \<le> length (S x)" "xs \<noteq> []"
  shows "sum_list (map (\<lambda>x. Suc (f x)) xs) \<le> Suc (length (join (c # sep) (map S xs)))"
  using assms
proof (induction xs)
  case Nil
  then show ?case by simp
next
  case (Cons x xs)
  show ?case
  proof (cases xs)
    case Nil
    then show ?thesis using Cons.prems(1)[of x] by simp
  next
    case (Cons y ys)
    have "sum_list (map (\<lambda>x. Suc (f x)) xs) \<le> Suc (length (join (c # sep) (map S xs)))"
      using Cons Cons.prems by (intro Cons.IH) auto
    then show ?thesis using Cons Cons.prems(1)[of x] by simp
  qed
qed

lemma need_le_length: "need v \<le> length (serialize gap ind v)"
proof (induction v arbitrary: ind)
  case (JArr vs)
  show ?case
  proof (cases "vs = []")
    case False
    have "sum_list (map (\<lambda>v. Suc (need v)) vs)
          \<le> Suc (length (join (CHR '','' # newline gap (ind @ gap)) (map (serialize gap (ind @ gap)) vs)))"
      using JArr.IH False by (intro sum_need_le_join) auto
    then show ?thesis using False by simp
  qed simp
next
  case (JObj kvs)
  show ?case
  proof (cases "kvs = []")
    case False
    have "sum_list (map (\<lambda>kv. Suc (need (snd kv))) kvs)
          \<le> Suc (length (join (CHR '','' # newline gap (ind @ gap))
                (map (\<lambda>kv. quote (fst kv) @ colon gap @ serialize gap (ind @ gap) (snd kv)) kvs)))"
    proof (intro sum_need_le_join)
      fix kv assume "kv \<in> set kvs"
      moreover have "snd kv \<in> Basic_BNFs.snds kv" by (cases kv) simp
      ultimately have "need (snd kv) \<le> length (serialize gap (ind @ gap) (snd kv))"
        by (rule JObj.IH)
      then show "need (snd kv) \<le> length (quote (fst kv) @ colon gap @ serialize gap (ind @ gap) (snd kv))"
        by simp
    qed (rule False)
    moreover have "(\<lambda>(k, v). quote k @ colon gap @ serialize gap (ind @ gap) v)
        = (\<lambda>kv. quote (fst kv) @ colon gap @ serialize gap (ind @ gap) (snd kv))"
      by (auto simp: fun_eq_iff)
    ultimately show ?thesis using False by simp
  qed simp
next
  case (JNum i)
  then show ?case using number_to_string_hd[of i] by auto
next
  case (JStr s)
  then show ?case by (simp add: quote_def)
qed simp_all

lemma JSON_parse_serialize:
  assumes "js_value v" "list_all is_ws gap"
  shows "JSON_parse (serialize gap [] v) = Inr v"
proof -
  have "need v \<le> Suc (2 * length (serialize gap [] v))"
    using need_le_length[of v gap "[]"] by simp
  then have "parse_value (Suc (2 * length (serialize gap [] v))) (serialize gap [] v @ []) = Inr (v, [])"
    using assms by (intro parse_value_serialize) (simp_all add: num_end_def)
  then show ?thesis by (simp add: JSON_parse_def skip_ws_def)
qed

lemma JSON_parse_stringify: "js_value v \<Longrightarrow> JSON_parse (JSON_stringify v) = Inr v"
  unfolding JSON_stringify_def by (rule JSON_parse_serialize) simp_all

lemma JSON_parse_stringify2: "js_value v \<Longrightarrow> JSON_parse (JSON_stringify2 v) = Inr v"
  unfolding JSON_stringify2_def by (rule JSON_parse_serialize) (simp_all add: is_ws_def)

section \<open>The bound on nested calls is never reached\<close>

lemma skip_ws_length: "length (skip_ws cs) \<le> length cs"
  by (simp add: skip_ws_def length_dropWhile_le)

lemma skip_ws_Cons_length: "skip_ws cs = c # r \<Longrightarrow> length r < length cs"
  using skip_ws_length[of cs] by simp

lemma parse_chars_shrinks: "parse_chars cs = Inr (s, r) \<Longrightarrow> length r < length cs"
proof (induction cs arbitrary: s r rule: parse_chars.induct)
  case 1
  then show ?case by simp
next
  case (2 c cs)
  then show ?case
    by (auto simp: cons_result_def split: if_splits list.splits option.splits sum.splits prod.splits)
       fastforce+
qed

lemma parse_int_shrinks: "parse_int neg cs = Inr (v, r) \<Longrightarrow> length r < length cs"
  using length_dropWhile_le[of is_digit "tl cs"]
  by (cases cs) (auto simp: parse_int_def Let_def split: if_splits)

lemma parse_number_shrinks: "parse_number cs = Inr (v, r) \<Longrightarrow> length r < length cs"
  by (cases cs) (auto simp: parse_number_def split: if_splits dest: parse_int_shrinks)

lemma parse_literal_shrinks: "parse_literal cs = Inr (v, r) \<Longrightarrow> length r < length cs"
  by (cases cs) (auto simp: parse_literal_def split: if_splits)

lemma cons_result_Inl: "cons_result c r = Inl e \<Longrightarrow> r = Inl e"
  by (cases r) (auto simp: cons_result_def)

lemma parse_int_no_fuel: "parse_int neg cs \<noteq> Inl OutOfFuel"
  by (cases cs) (simp_all add: parse_int_def Let_def)

lemma parse_number_no_fuel: "parse_number cs \<noteq> Inl OutOfFuel"
  by (cases cs) (simp_all add: parse_number_def parse_int_no_fuel)

lemma parse_literal_no_fuel: "parse_literal cs \<noteq> Inl OutOfFuel"
  by (simp add: parse_literal_def)

lemma parse_chars_no_fuel: "parse_chars cs \<noteq> Inl OutOfFuel"
proof (induction cs rule: length_induct)
  case (1 cs)
  show ?case
  proof
    assume h: "parse_chars cs = Inl OutOfFuel"
    then obtain c cs1 where cs: "cs = c # cs1" by (cases cs) auto
    have IH: "\<And>ys. length ys < length cs \<Longrightarrow> parse_chars ys \<noteq> Inl OutOfFuel"
      using 1 by blast
    have "(\<exists>x ys. length ys < length cs \<and> cons_result x (parse_chars ys) = Inl OutOfFuel)"
      using h unfolding cs
      by (simp split: if_splits list.splits option.splits) force+
    then show False using IH cons_result_Inl by blast
  qed
qed

lemma value_shrink_step:
  assumes E: "\<And>acc cs v r. parse_elements n acc cs = Inr (v, r) \<Longrightarrow> length r < length cs"
    and M: "\<And>acc cs v r. parse_members n acc cs = Inr (v, r) \<Longrightarrow> length r < length cs"
    and h: "parse_value (Suc n) cs = Inr (v, r)"
  shows "length r < length cs"
proof (cases "skip_ws cs")
  case Nil
  then show ?thesis using h by simp
next
  case (Cons c r0)
  have l0: "length r0 < length cs" using Cons by (rule skip_ws_Cons_length)
  have l1: "length (c # r0) \<le> length cs" using l0 by simp
  consider (obj) "c = CHR ''{''" | (arr) "c \<noteq> CHR ''{''" "c = CHR ''[''"
    | (str) "c \<noteq> CHR ''{''" "c \<noteq> CHR ''[''" "c = CHR 0x22"
    | (other) "c \<noteq> CHR ''{''" "c \<noteq> CHR ''[''" "c \<noteq> CHR 0x22"
    by blast
  then show ?thesis
  proof cases
    case obj
    show ?thesis
    proof (cases "skip_ws r0")
      case Nil
      then show ?thesis using h Cons obj by simp
    next
      case (Cons c1 r1)
      have "r = r1 \<or> parse_members n [] r0 = Inr (v, r)"
        using h \<open>skip_ws cs = c # r0\<close> obj Cons by (simp split: if_splits)
      then show ?thesis
        using skip_ws_Cons_length[OF Cons] M[of "[]" r0 v r] l0 by auto
    qed
  next
    case arr
    show ?thesis
    proof (cases "skip_ws r0")
      case Nil
      then show ?thesis using h Cons arr by simp
    next
      case (Cons c1 r1)
      have "r = r1 \<or> parse_elements n [] r0 = Inr (v, r)"
        using h \<open>skip_ws cs = c # r0\<close> arr Cons by (simp split: if_splits)
      then show ?thesis
        using skip_ws_Cons_length[OF Cons] E[of "[]" r0 v r] l0 by auto
    qed
  next
    case str
    have "\<exists>s. parse_chars r0 = Inr (s, r)"
      using h Cons str by (simp split: sum.splits prod.splits)
    then show ?thesis using parse_chars_shrinks l0 by fastforce
  next
    case other
    have "parse_number (c # r0) = Inr (v, r) \<or> parse_literal (c # r0) = Inr (v, r)"
      using h Cons other by (simp split: if_splits)
    then show ?thesis
      using parse_number_shrinks[of "c # r0" v r] parse_literal_shrinks[of "c # r0" v r] l1
      by auto
  qed
qed

lemma elements_shrink_step:
  assumes V: "\<And>cs v r. parse_value n cs = Inr (v, r) \<Longrightarrow> length r < length cs"
    and E: "\<And>acc cs v r. parse_elements n acc cs = Inr (v, r) \<Longrightarrow> length r < length cs"
    and h: "parse_elements (Suc n) acc cs = Inr (v, r)"
  shows "length r < length cs"
proof (cases "parse_value n cs")
  case (Inl e)
  then show ?thesis using h by simp
next
  case (Inr p)
  obtain v1 r1 where p: "p = (v1, r1)" by (cases p)
  have l1: "length r1 < length cs" using V Inr p by simp
  show ?thesis
  proof (cases "skip_ws r1")
    case Nil
    then show ?thesis using h Inr p by simp
  next
    case (Cons c r2)
    have l2: "length r2 < length r1" using Cons by (rule skip_ws_Cons_length)
    have "(c = CHR '','' \<and> parse_elements n (acc @ [v1]) r2 = Inr (v, r)) \<or> r = r2"
      using h Inr p Cons by (simp split: if_splits)
    then show ?thesis using E[of "acc @ [v1]" r2 v r] l1 l2 by auto
  qed
qed

lemma members_shrink_step:
  assumes V: "\<And>cs v r. parse_value n cs = Inr (v, r) \<Longrightarrow> length r < length cs"
    and M: "\<And>acc cs v r. parse_members n acc cs = Inr (v, r) \<Longrightarrow> length r < length cs"
    and h: "parse_members (Suc n) acc cs = Inr (v, r)"
  shows "length r < length cs"
proof (cases "skip_ws cs")
  case Nil
  then show ?thesis using h by simp
next
  case (Cons q r0)
  have l0: "length r0 < length cs" using Cons by (rule skip_ws_Cons_length)
  have q: "q = CHR 0x22" using h Cons by (simp split: if_splits)
  show ?thesis
  proof (cases "parse_chars r0")
    case (Inl e)
    then show ?thesis using h Cons q by simp
  next
    case (Inr p)
    obtain k r1 where p: "p = (k, r1)" by (cases p)
    have l1: "length r1 < length r0" using parse_chars_shrinks Inr p by simp
    show ?thesis
    proof (cases "skip_ws r1")
      case Nil
      then show ?thesis using h Cons q Inr p by simp
    next
      case (Cons c r2)
      have l2: "length r2 < length r1" using Cons by (rule skip_ws_Cons_length)
      have c: "c = CHR '':''"
        using h \<open>skip_ws cs = q # r0\<close> q Inr p Cons by (simp split: if_splits)
      show ?thesis
      proof (cases "parse_value n r2")
        case (Inl e)
        then show ?thesis
          using h \<open>skip_ws cs = q # r0\<close> q \<open>parse_chars r0 = Inr p\<close> p Cons c by simp
      next
        case (Inr p2)
        obtain v1 r3 where p2: "p2 = (v1, r3)" by (cases p2)
        have l3: "length r3 < length r2" using V Inr p2 by simp
        show ?thesis
        proof (cases "skip_ws r3")
          case Nil
          then show ?thesis
            using h \<open>skip_ws cs = q # r0\<close> q \<open>parse_chars r0 = Inr p\<close> p
              \<open>skip_ws r1 = c # r2\<close> c Inr p2
            by (simp split: if_splits)
        next
          case (Cons d r4)
          have l4: "length r4 < length r3" using Cons by (rule skip_ws_Cons_length)
          have "parse_members n (AList.update k v1 acc) r4 = Inr (v, r) \<or> r = r4"
            using h \<open>skip_ws cs = q # r0\<close> q \<open>parse_chars r0 = Inr p\<close> p
              \<open>skip_ws r1 = c # r2\<close> c Inr p2 Cons
            by (simp split: if_splits)
          then show ?thesis
            using M[of "AList.update k v1 acc" r4 v r] l0 l1 l2 l3 l4 by auto
        qed
      qed
    qed
  qed
qed

lemma parse_shrinks_aux:
  "(\<forall>cs v r. parse_value n cs = Inr (v, r) \<longrightarrow> length r < length cs)
   \<and> (\<forall>acc cs v r. parse_elements n acc cs = Inr (v, r) \<longrightarrow> length r < length cs)
   \<and> (\<forall>acc cs v r. parse_members n acc cs = Inr (v, r) \<longrightarrow> length r < length cs)"
proof (induction n)
  case 0
  then show ?case by simp
next
  case (Suc n)
  have V: "\<And>cs v r. parse_value n cs = Inr (v, r) \<Longrightarrow> length r < length cs"
    and E: "\<And>acc cs v r. parse_elements n acc cs = Inr (v, r) \<Longrightarrow> length r < length cs"
    and M: "\<And>acc cs v r. parse_members n acc cs = Inr (v, r) \<Longrightarrow> length r < length cs"
    using Suc.IH by blast+
  have "length r < length cs" if "parse_value (Suc n) cs = Inr (v, r)" for cs v r
    using E M that by (rule value_shrink_step)
  moreover have "length r < length cs" if "parse_elements (Suc n) acc cs = Inr (v, r)" for acc cs v r
    using V E that by (rule elements_shrink_step)
  moreover have "length r < length cs" if "parse_members (Suc n) acc cs = Inr (v, r)" for acc cs v r
    using V M that by (rule members_shrink_step)
  ultimately show ?case by blast
qed

lemma parse_value_shrinks: "parse_value n cs = Inr (v, r) \<Longrightarrow> length r < length cs"
  using parse_shrinks_aux[of n] by blast

lemma value_fuel_step:
  assumes E: "\<And>acc cs. 2 * length cs + 1 < n \<Longrightarrow> parse_elements n acc cs \<noteq> Inl OutOfFuel"
    and M: "\<And>acc cs. 2 * length cs + 1 < n \<Longrightarrow> parse_members n acc cs \<noteq> Inl OutOfFuel"
    and h: "2 * length cs < Suc n"
  shows "parse_value (Suc n) cs \<noteq> Inl OutOfFuel"
proof
  assume eq: "parse_value (Suc n) cs = Inl OutOfFuel"
  show False
  proof (cases "skip_ws cs")
    case Nil
    then show ?thesis using eq by simp
  next
    case (Cons c r0)
    have l0: "2 * length r0 + 1 < n"
      using skip_ws_Cons_length[OF Cons] h by simp
    consider (obj) "c = CHR ''{''" | (arr) "c \<noteq> CHR ''{''" "c = CHR ''[''"
      | (str) "c \<noteq> CHR ''{''" "c \<noteq> CHR ''[''" "c = CHR 0x22"
      | (other) "c \<noteq> CHR ''{''" "c \<noteq> CHR ''[''" "c \<noteq> CHR 0x22"
      by blast
    then show ?thesis
    proof cases
      case obj
      have "parse_members n [] r0 = Inl OutOfFuel"
        using eq Cons obj by (cases "skip_ws r0") (simp_all split: if_splits)
      then show ?thesis using M[OF l0] by simp
    next
      case arr
      have "parse_elements n [] r0 = Inl OutOfFuel"
        using eq Cons arr by (cases "skip_ws r0") (simp_all split: if_splits)
      then show ?thesis using E[OF l0] by simp
    next
      case str
      have "parse_chars r0 = Inl OutOfFuel"
        using eq Cons str by (simp split: sum.splits prod.splits)
      then show ?thesis using parse_chars_no_fuel by simp
    next
      case other
      have "parse_number (c # r0) = Inl OutOfFuel \<or> parse_literal (c # r0) = Inl OutOfFuel"
        using eq Cons other by (simp split: if_splits)
      then show ?thesis using parse_number_no_fuel parse_literal_no_fuel by blast
    qed
  qed
qed

lemma elements_fuel_step:
  assumes V: "\<And>cs. 2 * length cs < n \<Longrightarrow> parse_value n cs \<noteq> Inl OutOfFuel"
    and E: "\<And>acc cs. 2 * length cs + 1 < n \<Longrightarrow> parse_elements n acc cs \<noteq> Inl OutOfFuel"
    and h: "2 * length cs + 1 < Suc n"
  shows "parse_elements (Suc n) acc cs \<noteq> Inl OutOfFuel"
proof
  assume eq: "parse_elements (Suc n) acc cs = Inl OutOfFuel"
  have hv: "2 * length cs < n" using h by simp
  show False
  proof (cases "parse_value n cs")
    case (Inl e)
    then show ?thesis using eq V[OF hv] by simp
  next
    case (Inr p)
    obtain v1 r1 where p: "p = (v1, r1)" by (cases p)
    have l1: "length r1 < length cs" using parse_value_shrinks Inr p by simp
    show ?thesis
    proof (cases "skip_ws r1")
      case Nil
      then show ?thesis using eq Inr p by simp
    next
      case (Cons c r2)
      have "2 * length r2 + 1 < n"
        using skip_ws_Cons_length[OF Cons] l1 hv by simp
      moreover have "parse_elements n (acc @ [v1]) r2 = Inl OutOfFuel"
        using eq Inr p Cons by (simp split: if_splits)
      ultimately show ?thesis using E by blast
    qed
  qed
qed

lemma members_fuel_step:
  assumes V: "\<And>cs. 2 * length cs < n \<Longrightarrow> parse_value n cs \<noteq> Inl OutOfFuel"
    and M: "\<And>acc cs. 2 * length cs + 1 < n \<Longrightarrow> parse_members n acc cs \<noteq> Inl OutOfFuel"
    and h: "2 * length cs + 1 < Suc n"
  shows "parse_members (Suc n) acc cs \<noteq> Inl OutOfFuel"
proof
  assume eq: "parse_members (Suc n) acc cs = Inl OutOfFuel"
  show False
  proof (cases "skip_ws cs")
    case Nil
    then show ?thesis using eq by simp
  next
    case (Cons q r0)
    have l0: "length r0 < length cs" using Cons by (rule skip_ws_Cons_length)
    have q: "q = CHR 0x22" using eq Cons by (simp split: if_splits)
    show ?thesis
    proof (cases "parse_chars r0")
      case (Inl e)
      then show ?thesis using eq Cons q parse_chars_no_fuel[of r0] by simp
    next
      case (Inr p)
      obtain k r1 where p: "p = (k, r1)" by (cases p)
      have l1: "length r1 < length r0" using parse_chars_shrinks Inr p by simp
      show ?thesis
      proof (cases "skip_ws r1")
        case Nil
        then show ?thesis using eq Cons q Inr p by simp
      next
        case (Cons c r2)
        have l2: "length r2 < length r1" using Cons by (rule skip_ws_Cons_length)
        have c: "c = CHR '':''"
          using eq \<open>skip_ws cs = q # r0\<close> q Inr p Cons by (simp split: if_splits)
        have hv: "2 * length r2 < n" using h l0 l1 l2 by simp
        show ?thesis
        proof (cases "parse_value n r2")
          case (Inl e)
          then show ?thesis
            using eq \<open>skip_ws cs = q # r0\<close> q \<open>parse_chars r0 = Inr p\<close> p Cons c V[OF hv]
            by simp
        next
          case (Inr p2)
          obtain v1 r3 where p2: "p2 = (v1, r3)" by (cases p2)
          have l3: "length r3 < length r2" using parse_value_shrinks Inr p2 by simp
          show ?thesis
          proof (cases "skip_ws r3")
            case Nil
            then show ?thesis
              using eq \<open>skip_ws cs = q # r0\<close> q \<open>parse_chars r0 = Inr p\<close> p
                \<open>skip_ws r1 = c # r2\<close> c Inr p2
              by (simp split: if_splits)
          next
            case (Cons d r4)
            have "2 * length r4 + 1 < n"
              using skip_ws_Cons_length[OF Cons] l3 hv by simp
            moreover have "parse_members n (AList.update k v1 acc) r4 = Inl OutOfFuel"
              using eq \<open>skip_ws cs = q # r0\<close> q \<open>parse_chars r0 = Inr p\<close> p
                \<open>skip_ws r1 = c # r2\<close> c Inr p2 Cons
              by (simp split: if_splits)
            ultimately show ?thesis using M by blast
          qed
        qed
      qed
    qed
  qed
qed

lemma parse_fuel_aux:
  "(\<forall>cs. 2 * length cs < n \<longrightarrow> parse_value n cs \<noteq> Inl OutOfFuel)
   \<and> (\<forall>acc cs. 2 * length cs + 1 < n \<longrightarrow> parse_elements n acc cs \<noteq> Inl OutOfFuel)
   \<and> (\<forall>acc cs. 2 * length cs + 1 < n \<longrightarrow> parse_members n acc cs \<noteq> Inl OutOfFuel)"
proof (induction n)
  case 0
  then show ?case by simp
next
  case (Suc n)
  have V: "\<And>cs. 2 * length cs < n \<Longrightarrow> parse_value n cs \<noteq> Inl OutOfFuel"
    and E: "\<And>acc cs. 2 * length cs + 1 < n \<Longrightarrow> parse_elements n acc cs \<noteq> Inl OutOfFuel"
    and M: "\<And>acc cs. 2 * length cs + 1 < n \<Longrightarrow> parse_members n acc cs \<noteq> Inl OutOfFuel"
    using Suc.IH by blast+
  have "parse_value (Suc n) cs \<noteq> Inl OutOfFuel" if "2 * length cs < Suc n" for cs
    using E M that by (rule value_fuel_step)
  moreover have "parse_elements (Suc n) acc cs \<noteq> Inl OutOfFuel"
    if "2 * length cs + 1 < Suc n" for acc cs
    using V E that by (rule elements_fuel_step)
  moreover have "parse_members (Suc n) acc cs \<noteq> Inl OutOfFuel"
    if "2 * length cs + 1 < Suc n" for acc cs
    using V M that by (rule members_fuel_step)
  ultimately show ?case by blast
qed

text \<open>\<open>JSON_parse\<close> is decided by the text alone: the bound it passes always suffices.\<close>

lemma JSON_parse_fuel: "JSON_parse text \<noteq> Inl OutOfFuel"
proof -
  have "parse_value (Suc (2 * length text)) text \<noteq> Inl OutOfFuel"
    using parse_fuel_aux[of "Suc (2 * length text)"] by simp
  then show ?thesis
    by (auto simp: JSON_parse_def split: sum.splits prod.splits)
qed

section \<open>Paths and subjects\<close>

lemma split_on_nonempty: "split_on d xs \<noteq> []"
  by (induction xs) (auto split: list.splits)

lemma split_on_prefix: "d \<notin> set a \<Longrightarrow> split_on d (a @ d # rest) = a # split_on d rest"
  by (induction a) (auto split: list.splits simp: split_on_nonempty)

lemma hd_split_on: "hd (split_on d xs) = takeWhile (\<lambda>c. c \<noteq> d) xs"
  by (induction xs) (auto split: list.splits simp: split_on_nonempty)

lemma split_on_suffix:
  "d \<notin> set ys \<Longrightarrow> split_on d (xs @ ys) = butlast (split_on d xs) @ [last (split_on d xs) @ ys]"
proof (induction xs)
  case Nil
  then show ?case
    by (induction ys) (auto split: list.splits simp: split_on_nonempty)
next
  case (Cons x xs)
  then show ?case
    by (cases "split_on d xs"; cases "split_on d (xs @ ys)")
       (auto simp: split_on_nonempty split: list.splits if_splits)
qed

lemma subject_orderId_cache:
  "subject_orderId (''cache.orders.'' @ K) = takeWhile (\<lambda>c. c \<noteq> CHR ''.'') K"
proof -
  have "split_on (CHR ''.'') (''orders'' @ CHR ''.'' # K) = ''orders'' # split_on (CHR ''.'') K"
    by (rule split_on_prefix) simp
  moreover have "split_on (CHR ''.'') (''cache'' @ CHR ''.'' # (''orders'' @ CHR ''.'' # K))
        = ''cache'' # split_on (CHR ''.'') (''orders'' @ CHR ''.'' # K)"
    by (rule split_on_prefix) simp
  ultimately have "split_on (CHR ''.'') (''cache.orders.'' @ K)
        = ''cache'' # ''orders'' # split_on (CHR ''.'') K"
    by simp
  moreover obtain s ss where "split_on (CHR ''.'') K = s # ss"
    using split_on_nonempty[of "CHR ''.''" K] by (cases "split_on (CHR ''.'') K") auto
  ultimately show ?thesis
    using hd_split_on[of "CHR ''.''" K] by (simp add: subject_orderId_def)
qed

lemma normalize_segments_last:
  "s \<noteq> [] \<Longrightarrow> s \<noteq> ''.'' \<Longrightarrow> s \<noteq> ''..'' \<Longrightarrow>
   \<exists>pre. normalize_segments allow res (xs @ [s]) = pre @ [s]"
  by (induction allow res xs rule: normalize_segments.induct) (auto split: list.splits)

lemma join_last: "\<exists>q. join sep (xs @ [s]) = q @ s"
proof (induction xs)
  case Nil
  then show ?case by simp
next
  case (Cons x xs)
  then obtain q where q: "join sep (xs @ [s]) = q @ s" by blast
  show ?case
  proof (cases "xs @ [s]")
    case Nil
    then show ?thesis by simp
  next
    case (Cons y ys)
    then have "join sep ((x # xs) @ [s]) = x @ sep @ join sep (xs @ [s])" by simp
    then show ?thesis using q by simp
  qed
qed

lemma cacheDir_eq: "path_join [''/tmp'', ''cache'', ''orders''] = ''/tmp/cache/orders''"
  by code_simp

lemma ancestors_cacheDir:
  "ancestors ''/tmp/cache/orders'' = [''/tmp'', ''/tmp/cache'', ''/tmp/cache/orders'']"
  by code_simp

lemma order_file_json: "\<exists>q. order_file K = q @ ''.json''"
proof -
  let ?p = "''/tmp/cache/orders/'' @ K @ ''.json''"
  let ?S = "split_on (CHR ''/'') (''/tmp/cache/orders/'' @ K)"
  have sp: "split_on (CHR ''/'') ?p = butlast ?S @ [last ?S @ ''.json'']"
    using split_on_suffix[of "CHR ''/''" "''.json''" "''/tmp/cache/orders/'' @ K"] by simp
  obtain pre where pre: "normalize_segments False [] (split_on (CHR ''/'') ?p) = pre @ [last ?S @ ''.json'']"
    unfolding sp using normalize_segments_last[of "last ?S @ ''.json''" False "[]" "butlast ?S"]
    by (auto simp: append_eq_Cons_conv)
  obtain q where q: "join ''/'' (pre @ [last ?S @ ''.json'']) = q @ last ?S @ ''.json''"
    using join_last by blast
  have "order_file K = path_normalize ?p"
    by (simp add: order_file_def path_join_def)
  also have "\<dots> = CHR ''/'' # q @ last ?S @ ''.json''"
    using pre q by (simp add: path_normalize_def Let_def)
  finally show ?thesis by (metis append.assoc append_Cons)
qed

lemma order_file_not_dir:
  "order_file K \<notin> {''/'', ''/tmp'', ''/tmp/cache'', ''/tmp/cache/orders''}"
proof -
  obtain q where q: "order_file K = q @ ''.json''" using order_file_json by blast
  have "last (order_file K) = CHR ''n''" unfolding q by simp
  then show ?thesis by auto
qed


section \<open>The file system calls\<close>

lemma emit_simps [simp]:
  "entries (emit e w) = entries w" "wdenied (emit e w) = wdenied w"
  "rdenied (emit e w) = rdenied w" "trace (emit e w) = trace w @ [e]"
  by (simp_all add: emit_def)

lemma emit_fs [simp]:
  "existsSync (emit e w) p = existsSync w p" "is_dir (emit e w) p = is_dir w p"
  "readFileSync (emit e w) p = readFileSync w p"
  by (simp_all add: existsSync_def is_dir_def readFileSync_def split: option.splits fs_entry.splits)

lemma mkdirs_Cons_None:
  "entries w d = None \<Longrightarrow> mkdirs w (d # ds) =
     (if d \<in> wdenied w then (Inl EACCES, w)
      else mkdirs (w\<lparr>entries := (entries w)(d \<mapsto> Dir)\<rparr>) ds)"
  by simp

lemma mkdirs_Cons_Dir: "entries w d = Some Dir \<Longrightarrow> mkdirs w (d # ds) = mkdirs w ds"
  by simp

lemma mkdirs_Cons_File: "entries w d = Some (File c) \<Longrightarrow> mkdirs w (d # ds) = (Inl ENOTDIR, w)"
  by simp

declare mkdirs.simps(2) [simp del]

lemma mkdirs_frame:
  "mkdirs w ds = (r, w1) \<Longrightarrow>
     trace w1 = trace w \<and> wdenied w1 = wdenied w \<and> rdenied w1 = rdenied w
     \<and> (\<forall>p. p \<notin> set ds \<longrightarrow> entries w1 p = entries w p)
     \<and> (\<forall>p e. entries w p = Some e \<longrightarrow> entries w1 p = Some e)
     \<and> (\<forall>p c. entries w1 p = Some (File c) \<longrightarrow> entries w p = Some (File c))"
proof (induction ds arbitrary: w)
  case Nil
  then show ?case by simp
next
  case (Cons d ds)
  show ?case
  proof (cases "entries w d")
    case None
    show ?thesis
    proof (cases "d \<in> wdenied w")
      case True
      then have "w1 = w" using Cons.prems None by (simp add: mkdirs_Cons_None)
      then show ?thesis by simp
    next
      case False
      let ?w = "w\<lparr>entries := (entries w)(d \<mapsto> Dir)\<rparr>"
      have "mkdirs ?w ds = (r, w1)" using Cons.prems None False by (simp add: mkdirs_Cons_None)
      note ih = Cons.IH[OF this]
      have "trace w1 = trace ?w" "wdenied w1 = wdenied ?w" "rdenied w1 = rdenied ?w"
        using ih by blast+
      then have t: "trace w1 = trace w" "wdenied w1 = wdenied w" "rdenied w1 = rdenied w"
        by simp_all
      have A: "\<And>p. p \<notin> set ds \<Longrightarrow> entries w1 p = entries ?w p"
        and B: "\<And>p e. entries ?w p = Some e \<Longrightarrow> entries w1 p = Some e"
        and C: "\<And>p c. entries w1 p = Some (File c) \<Longrightarrow> entries ?w p = Some (File c)"
        using ih by blast+
      have "entries w1 p = entries w p" if "p \<notin> set (d # ds)" for p
        using A[of p] that by simp
      moreover have "entries w1 p = Some e" if "entries w p = Some e" for p e
      proof -
        have "p \<noteq> d" using that None by auto
        then show ?thesis using B[of p e] that by simp
      qed
      moreover have "entries w p = Some (File c)" if "entries w1 p = Some (File c)" for p c
        using C[OF that] by (cases "p = d") simp_all
      ultimately show ?thesis using t by blast
    qed
  next
    case (Some e)
    show ?thesis
    proof (cases e)
      case Dir
      then have "mkdirs w ds = (r, w1)" using Cons.prems Some by (simp add: mkdirs_Cons_Dir)
      from Cons.IH[OF this]
      have t: "trace w1 = trace w" "wdenied w1 = wdenied w" "rdenied w1 = rdenied w"
        and A: "\<And>p. p \<notin> set ds \<Longrightarrow> entries w1 p = entries w p"
        and B: "\<And>p e. entries w p = Some e \<Longrightarrow> entries w1 p = Some e"
        and C: "\<And>p c. entries w1 p = Some (File c) \<Longrightarrow> entries w p = Some (File c)"
        by blast+
      have "entries w1 p = entries w p" if "p \<notin> set (d # ds)" for p
        using A[of p] that by simp
      then show ?thesis using t B C by blast
    next
      case (File c)
      then have "w1 = w" using Cons.prems Some by (simp add: mkdirs_Cons_File)
      then show ?thesis by simp
    qed
  qed
qed

lemma mkdirs_props:
  assumes "mkdirs w ds = (r, w1)"
  shows "trace w1 = trace w" "wdenied w1 = wdenied w"
    "p \<notin> set ds \<Longrightarrow> entries w1 p = entries w p"
    "entries w p = Some e \<Longrightarrow> entries w1 p = Some e"
    "entries w1 p = Some (File c) \<Longrightarrow> entries w p = Some (File c)"
    "rdenied w1 = rdenied w"
  using mkdirs_frame[OF assms] by blast+

lemma mkdirs_ok: "mkdirs w ds = (Inr u, w1) \<Longrightarrow> \<forall>d\<in>set ds. entries w1 d = Some Dir"
proof (induction ds arbitrary: w)
  case Nil
  then show ?case by simp
next
  case (Cons d ds)
  show ?case
  proof (cases "entries w d")
    case None
    show ?thesis
    proof (cases "d \<in> wdenied w")
      case True
      then show ?thesis using Cons.prems None by (simp add: mkdirs_Cons_None)
    next
      case False
      let ?w = "w\<lparr>entries := (entries w)(d \<mapsto> Dir)\<rparr>"
      have m: "mkdirs ?w ds = (Inr u, w1)" using Cons.prems None False by (simp add: mkdirs_Cons_None)
      have "entries ?w d = Some Dir" by simp
      then have "entries w1 d = Some Dir" by (rule mkdirs_props(4)[OF m])
      then show ?thesis using Cons.IH[OF m] by simp
    qed
  next
    case (Some e)
    show ?thesis
    proof (cases e)
      case Dir
      then have m: "mkdirs w ds = (Inr u, w1)" using Cons.prems Some by (simp add: mkdirs_Cons_Dir)
      have "entries w1 d = Some Dir" using Some Dir mkdirs_props(4)[OF m] by blast
      then show ?thesis using Cons.IH[OF m] by simp
    next
      case (File c)
      then show ?thesis using Cons.prems Some by (simp add: mkdirs_Cons_File)
    qed
  qed
qed

lemma creatable_upd:
  "entries w d = None \<Longrightarrow> d \<notin> wdenied w \<Longrightarrow>
   creatable (w\<lparr>entries := (entries w)(d \<mapsto> Dir)\<rparr>) x = creatable w x"
  by (simp add: creatable_def)

lemma mkdirs_completes: "(fst (mkdirs w ds) = Inr ()) = list_all (creatable w) ds"
proof (induction ds arbitrary: w)
  case Nil
  then show ?case by simp
next
  case (Cons d ds)
  show ?case
  proof (cases "entries w d")
    case None
    show ?thesis
    proof (cases "d \<in> wdenied w")
      case True
      then show ?thesis using None by (simp add: mkdirs_Cons_None creatable_def)
    next
      case False
      let ?w = "w\<lparr>entries := (entries w)(d \<mapsto> Dir)\<rparr>"
      have "list_all (creatable ?w) ds = list_all (creatable w) ds"
        using creatable_upd[OF None False] by (simp add: list_all_iff)
      moreover have "creatable w d" using None False by (simp add: creatable_def)
      ultimately show ?thesis
        using Cons.IH[of ?w] None False by (simp add: mkdirs_Cons_None)
    qed
  next
    case (Some e)
    show ?thesis
    proof (cases e)
      case Dir
      then show ?thesis using Cons.IH[of w] Some by (simp add: mkdirs_Cons_Dir creatable_def)
    next
      case (File c)
      then show ?thesis using Some by (simp add: mkdirs_Cons_File creatable_def)
    qed
  qed
qed

section \<open>\<^verbatim>\<open>ensureCacheDir\<close>\<close>

lemma ensureCacheDir_unfold:
  "ensureCacheDir w =
     (if existsSync w ''/tmp/cache/orders'' then (Inr ''/tmp/cache/orders'', w)
      else (case mkdirs w [''/tmp'', ''/tmp/cache'', ''/tmp/cache/orders''] of
              (Inl e, w1) \<Rightarrow> (Inl e, w1)
            | (Inr u, w1) \<Rightarrow> (Inr ''/tmp/cache/orders'', w1)))"
  by (simp add: ensureCacheDir_def cacheDir_eq mkdirSync_recursive_def ancestors_cacheDir Let_def)

lemma ensureCacheDir_exists:
  "existsSync w ''/tmp/cache/orders'' \<Longrightarrow> ensureCacheDir w = (Inr ''/tmp/cache/orders'', w)"
  by (simp add: ensureCacheDir_unfold)

lemma ensureCacheDir_frame:
  assumes "ensureCacheDir w = (r, w1)"
  shows "trace w1 = trace w" "wdenied w1 = wdenied w"
    "p \<notin> {''/tmp'', ''/tmp/cache'', ''/tmp/cache/orders''} \<Longrightarrow> entries w1 p = entries w p"
    "entries w p = Some e \<Longrightarrow> entries w1 p = Some e"
    "(entries w1 p = Some (File c)) = (entries w p = Some (File c))"
    "rdenied w1 = rdenied w"
proof -
  have "w1 = w \<or> (\<exists>r'. mkdirs w [''/tmp'', ''/tmp/cache'', ''/tmp/cache/orders''] = (r', w1))"
  proof (cases "existsSync w ''/tmp/cache/orders''")
    case True
    then show ?thesis using assms by (simp add: ensureCacheDir_exists)
  next
    case False
    obtain r' w' where m: "mkdirs w [''/tmp'', ''/tmp/cache'', ''/tmp/cache/orders''] = (r', w')"
      by (cases "mkdirs w [''/tmp'', ''/tmp/cache'', ''/tmp/cache/orders'']")
    have "ensureCacheDir w = (case r' of Inl e \<Rightarrow> (Inl e, w') | Inr u \<Rightarrow> (Inr ''/tmp/cache/orders'', w'))"
      using False by (simp add: ensureCacheDir_unfold m)
    then have "w1 = w'" using assms by (cases r') simp_all
    then show ?thesis using m by blast
  qed
  then consider (same) "w1 = w"
    | (made) r' where "mkdirs w [''/tmp'', ''/tmp/cache'', ''/tmp/cache/orders''] = (r', w1)"
    by blast
  note cs = this
  show "trace w1 = trace w"
    using cs by cases (simp, rule mkdirs_props(1))
  show "wdenied w1 = wdenied w"
    using cs by cases (simp, rule mkdirs_props(2))
  show "rdenied w1 = rdenied w"
    using cs by cases (simp, rule mkdirs_props(6))
  show "entries w1 p = entries w p"
    if "p \<notin> {''/tmp'', ''/tmp/cache'', ''/tmp/cache/orders''}"
    using cs
  proof cases
    case same
    then show ?thesis by simp
  next
    case made
    show ?thesis by (rule mkdirs_props(3)[OF made]) (use that in simp)
  qed
  show "entries w1 p = Some e" if "entries w p = Some e"
    using cs
  proof cases
    case same
    then show ?thesis using that by simp
  next
    case made
    show ?thesis by (rule mkdirs_props(4)[OF made that])
  qed
  show "(entries w1 p = Some (File c)) = (entries w p = Some (File c))"
    using cs
  proof cases
    case same
    then show ?thesis by simp
  next
    case made
    show ?thesis using mkdirs_props(4,5)[OF made] by blast
  qed
qed

lemma ensureCacheDir_order_file:
  "ensureCacheDir w = (r, w1) \<Longrightarrow> entries w1 (order_file K) = entries w (order_file K)"
  using ensureCacheDir_frame(3)[of w r w1 "order_file K"] order_file_not_dir[of K] by simp

lemma ensureCacheDir_ok:
  assumes "ensureCacheDir w = (Inr d, w1)"
  shows "d = ''/tmp/cache/orders''" "existsSync w1 ''/tmp/cache/orders''"
proof -
  have "d = ''/tmp/cache/orders'' \<and> existsSync w1 ''/tmp/cache/orders''"
  proof (cases "existsSync w ''/tmp/cache/orders''")
    case True
    then show ?thesis using assms by (simp add: ensureCacheDir_exists)
  next
    case False
    obtain r' w' where m: "mkdirs w [''/tmp'', ''/tmp/cache'', ''/tmp/cache/orders''] = (r', w')"
      by (cases "mkdirs w [''/tmp'', ''/tmp/cache'', ''/tmp/cache/orders'']")
    have "ensureCacheDir w = (case r' of Inl e \<Rightarrow> (Inl e, w') | Inr u \<Rightarrow> (Inr ''/tmp/cache/orders'', w'))"
      using False by (simp add: ensureCacheDir_unfold m)
    then have eq: "r' = Inr () \<and> w1 = w' \<and> d = ''/tmp/cache/orders''"
      using assms by (cases r') auto
    then have "mkdirs w [''/tmp'', ''/tmp/cache'', ''/tmp/cache/orders''] = (Inr (), w1)"
      using m by (simp only:)
    from mkdirs_ok[OF this] have "entries w1 ''/tmp/cache/orders'' = Some Dir" by simp
    then show ?thesis using eq by (simp add: existsSync_def)
  qed
  then show "d = ''/tmp/cache/orders''" "existsSync w1 ''/tmp/cache/orders''" by simp_all
qed

lemma ensureCacheDir_completes:
  "(\<exists>d. fst (ensureCacheDir w) = Inr d) = cache_dir_available w"
proof (cases "existsSync w ''/tmp/cache/orders''")
  case True
  then show ?thesis by (simp add: ensureCacheDir_exists cache_dir_available_def)
next
  case False
  obtain r' w' where m: "mkdirs w [''/tmp'', ''/tmp/cache'', ''/tmp/cache/orders''] = (r', w')"
    by (cases "mkdirs w [''/tmp'', ''/tmp/cache'', ''/tmp/cache/orders'']")
  have e: "ensureCacheDir w = (case r' of Inl e \<Rightarrow> (Inl e, w') | Inr u \<Rightarrow> (Inr ''/tmp/cache/orders'', w'))"
    using False by (simp add: ensureCacheDir_unfold m)
  have "(r' = Inr ()) = list_all (creatable w) [''/tmp'', ''/tmp/cache'', ''/tmp/cache/orders'']"
    using mkdirs_completes[of w "[''/tmp'', ''/tmp/cache'', ''/tmp/cache/orders'']"] m
    by (simp only: fst_conv)
  then show ?thesis
    using False by (cases r') (simp_all add: e cache_dir_available_def)
qed

lemma ensureCacheDir_idem:
  "ensureCacheDir w = (Inr d, w1) \<Longrightarrow> ensureCacheDir w1 = (Inr ''/tmp/cache/orders'', w1)"
  using ensureCacheDir_ok(2) ensureCacheDir_exists by blast

lemma order_file_join: "path_join [''/tmp/cache/orders'', K @ ''.json''] = order_file K"
  by (simp add: order_file_def)

section \<open>\<^verbatim>\<open>readOrderFromFile\<close> and \<^verbatim>\<open>writeOrderToFile\<close>\<close>

lemma order_file_not_root: "order_file K \<noteq> ''/''"
  using order_file_not_dir[of K] by simp

lemma readOrderFromFile_eq:
  assumes "ensureCacheDir w = (Inr d, w1)"
  shows "readOrderFromFile w K = (read_entry w K, w1)"
proof -
  have d: "d = ''/tmp/cache/orders''" using ensureCacheDir_ok(1)[OF assms] .
  have e: "entries w1 (order_file K) = entries w (order_file K)"
    using ensureCacheDir_order_file[OF assms] .
  have rd: "rdenied w1 = rdenied w" using ensureCacheDir_frame(6)[OF assms] .
  show ?thesis
  proof (cases "entries w (order_file K)")
    case None
    then show ?thesis
      using assms d e order_file_not_root[of K]
      by (simp add: readOrderFromFile_def read_entry_def order_file_join existsSync_def)
  next
    case (Some x)
    then show ?thesis
      using assms d e rd
      by (cases x; cases "JSON_parse (case x of File c \<Rightarrow> c | Dir \<Rightarrow> [])")
         (simp_all add: readOrderFromFile_def read_entry_def order_file_join existsSync_def
            readFileSync_def)
  qed
qed

lemma readOrderFromFile_fail:
  "ensureCacheDir w = (Inl e, w1) \<Longrightarrow> readOrderFromFile w K = (Inl e, w1)"
  by (simp add: readOrderFromFile_def)

lemma readOrderFromFile_world: "snd (readOrderFromFile w K) = snd (ensureCacheDir w)"
proof (cases "ensureCacheDir w")
  case (Pair r w1)
  then show ?thesis
    by (cases r) (simp_all add: readOrderFromFile_fail readOrderFromFile_eq)
qed

lemma readOrderFromFile_Inr:
  assumes "readOrderFromFile w K = (Inr v, w1)"
  shows "ensureCacheDir w = (Inr ''/tmp/cache/orders'', w1)" "read_entry w K = Inr v"
proof -
  obtain r w' where ew: "ensureCacheDir w = (r, w')" by (cases "ensureCacheDir w")
  then obtain d where r: "r = Inr d"
    using assms readOrderFromFile_fail[of w _ w' K] by (cases r) auto
  have "readOrderFromFile w K = (read_entry w K, w')"
    using readOrderFromFile_eq ew r by simp
  then show "ensureCacheDir w = (Inr ''/tmp/cache/orders'', w1)" "read_entry w K = Inr v"
    using assms ew r ensureCacheDir_ok(1)[of w d w'] by simp_all
qed

lemma writeOrderToFile_eq:
  assumes "ensureCacheDir w = (Inr d, w1)"
  shows "writeOrderToFile w K v = writeFileSync w1 (order_file K) (JSON_stringify2 v)"
  using assms ensureCacheDir_ok(1)[OF assms]
  by (simp add: writeOrderToFile_def order_file_join)

lemma writeOrderToFile_fail:
  "ensureCacheDir w = (Inl e, w1) \<Longrightarrow> writeOrderToFile w K v = (Inl e, w1)"
  by (simp add: writeOrderToFile_def)

lemma writeFileSync_ok:
  "writeFileSync w p c = (Inr u, w2) \<Longrightarrow>
   w2 = emit (FileWrite p c)
          (w\<lparr>entries := (entries w)(p \<mapsto> File c),
             rdenied := (if entries w p = None then rdenied w - {p} else rdenied w)\<rparr>)"
  by (auto simp: writeFileSync_def split: if_splits)

lemma writeFileSync_completes: "(fst (writeFileSync w p c) = Inr ()) = can_write w p"
  by (simp add: writeFileSync_def can_write_def)

lemma writeFileSync_fail: "writeFileSync w p c = (Inl e, w2) \<Longrightarrow> w2 = w"
  by (auto simp: writeFileSync_def split: if_splits)

text \<open>A write that succeeds leaves the entry, one event, and the cache directory in place.\<close>

lemma writeOrderToFile_ok:
  assumes "writeOrderToFile w K v = (Inr u, w2)"
  shows "entries w2 (order_file K) = Some (File (JSON_stringify2 v))"
    "trace w2 = trace w @ [FileWrite (order_file K) (JSON_stringify2 v)]"
    "wdenied w2 = wdenied w"
    "existsSync w2 ''/tmp/cache/orders''"
    "p \<noteq> order_file K \<Longrightarrow> entries w p = Some e \<Longrightarrow> entries w2 p = Some e"
    "rdenied w2 = (if entries w (order_file K) = None then rdenied w - {order_file K} else rdenied w)"
proof -
  obtain r w1 where ew: "ensureCacheDir w = (r, w1)" by (cases "ensureCacheDir w")
  then obtain d where r: "r = Inr d"
    using assms writeOrderToFile_fail[of w _ w1 K v] by (cases r) auto
  have wf: "writeFileSync w1 (order_file K) (JSON_stringify2 v) = (Inr u, w2)"
    using writeOrderToFile_eq[of w d w1 K v] ew r assms by simp
  have w2: "w2 = emit (FileWrite (order_file K) (JSON_stringify2 v))
                  (w1\<lparr>entries := (entries w1)(order_file K \<mapsto> File (JSON_stringify2 v)),
                      rdenied := (if entries w1 (order_file K) = None
                                  then rdenied w1 - {order_file K} else rdenied w1)\<rparr>)"
    using writeFileSync_ok[OF wf] .
  have ex: "existsSync w1 ''/tmp/cache/orders''"
    using ensureCacheDir_ok(2) ew r by blast
  show "entries w2 (order_file K) = Some (File (JSON_stringify2 v))" by (simp add: w2)
  show "trace w2 = trace w @ [FileWrite (order_file K) (JSON_stringify2 v)]"
    using ensureCacheDir_frame(1)[OF ew] by (simp add: w2)
  show "wdenied w2 = wdenied w" using ensureCacheDir_frame(2)[OF ew] by (simp add: w2)
  show "existsSync w2 ''/tmp/cache/orders''"
    using ex order_file_not_dir[of K] by (auto simp: w2 existsSync_def)
  show "p \<noteq> order_file K \<Longrightarrow> entries w p = Some e \<Longrightarrow> entries w2 p = Some e"
    using ensureCacheDir_frame(4)[OF ew] by (simp add: w2)
  show "rdenied w2 = (if entries w (order_file K) = None then rdenied w - {order_file K} else rdenied w)"
    using ensureCacheDir_frame(6)[OF ew] ensureCacheDir_order_file[OF ew, of K] by (simp add: w2)
qed

lemma writeOrderToFile_completes:
  "(fst (writeOrderToFile w K v) = Inr ()) = write_completes w K"
proof (cases "ensureCacheDir w")
  case (Pair r w1)
  show ?thesis
  proof (cases r)
    case (Inl e)
    then have "\<not> cache_dir_available w"
      using ensureCacheDir_completes[of w] Pair by simp
    then show ?thesis
      using Pair Inl writeOrderToFile_fail[of w e w1 K v] by (simp add: write_completes_def)
  next
    case (Inr d)
    then have "cache_dir_available w"
      using ensureCacheDir_completes[of w] Pair by simp
    then show ?thesis
      using Pair Inr writeOrderToFile_eq[of w d w1 K v]
      by (simp add: write_completes_def writeFileSync_completes)
  qed
qed

text \<open>A write that fails adds no event and changes no file.\<close>

lemma writeOrderToFile_failed:
  assumes "writeOrderToFile w K v = (Inl e, w2)"
  shows "trace w2 = trace w" "(entries w2 p = Some (File c)) = (entries w p = Some (File c))"
proof -
  obtain r w1 where ew: "ensureCacheDir w = (r, w1)" by (cases "ensureCacheDir w")
  have "w2 = w1"
  proof (cases r)
    case (Inl x)
    then show ?thesis using assms ew writeOrderToFile_fail[of w x w1 K v] by simp
  next
    case (Inr d)
    then show ?thesis
      using assms ew writeOrderToFile_eq[of w d w1 K v] writeFileSync_fail by metis
  qed
  then show "trace w2 = trace w" "(entries w2 p = Some (File c)) = (entries w p = Some (File c))"
    using ensureCacheDir_frame(1,5)[OF ew] by simp_all
qed

lemma read_after_write:
  assumes "js_value v" "writeOrderToFile w K v = (Inr u, w2)"
  shows "readOrderFromFile w2 K =
           (if entries w (order_file K) \<noteq> None \<and> order_file K \<in> rdenied w then Inl EACCES
            else Inr v, w2)"
proof -
  have "ensureCacheDir w2 = (Inr ''/tmp/cache/orders'', w2)"
    using writeOrderToFile_ok(4)[OF assms(2)] by (rule ensureCacheDir_exists)
  then have "readOrderFromFile w2 K = (read_entry w2 K, w2)" by (rule readOrderFromFile_eq)
  moreover have "read_entry w2 K =
      (if entries w (order_file K) \<noteq> None \<and> order_file K \<in> rdenied w then Inl EACCES else Inr v)"
    using writeOrderToFile_ok(1,6)[OF assms(2)] JSON_parse_stringify2[OF assms(1)]
    by (simp add: read_entry_def)
  ultimately show ?thesis by simp
qed

section \<open>The four ways through \<^verbatim>\<open>getOrder\<close>\<close>

lemma getOrder_error: "readOrderFromFile w K = (Inl e, w1) \<Longrightarrow> getOrder w K = (Inl e, w1)"
  by (simp add: getOrder_def)

lemma getOrder_hit:
  "readOrderFromFile w K = (Inr v, w1) \<Longrightarrow> truthy v \<Longrightarrow>
   getOrder w K = (Inr v, console_log (hit_line K) w1)"
  by (simp add: getOrder_def hit_line_def)

lemma getOrder_miss:
  assumes "readOrderFromFile w K = (Inr v, w1)" "\<not> truthy v"
  shows "getOrder w K =
     (case writeFileSync (emit (OriginFetch K) (console_log (miss_line K) w1)) (order_file K)
             (JSON_stringify2 (orderFromDB K)) of
        (Inl e, w4) \<Rightarrow> (Inl e, w4)
      | (Inr u, w4) \<Rightarrow>
          (Inr (orderFromDB K),
           console_log (published_line K)
             (nc_publish (order_subject K) (JSON_stringify (orderFromDB K)) w4)))"
proof -
  let ?w3 = "emit (OriginFetch K) (console_log (miss_line K) w1)"
  have "existsSync w1 ''/tmp/cache/orders''"
    using readOrderFromFile_Inr(1)[OF assms(1)] ensureCacheDir_ok(2) by blast
  then have "existsSync ?w3 ''/tmp/cache/orders''" by (simp add: console_log_def)
  then have "ensureCacheDir ?w3 = (Inr ''/tmp/cache/orders'', ?w3)"
    by (rule ensureCacheDir_exists)
  then have "writeOrderToFile ?w3 K (orderFromDB K)
             = writeFileSync ?w3 (order_file K) (JSON_stringify2 (orderFromDB K))"
    by (rule writeOrderToFile_eq)
  then show ?thesis
    using assms
    by (cases "writeFileSync ?w3 (order_file K) (JSON_stringify2 (orderFromDB K))"
          rule: prod.exhaust [case_names Pair];
        cases "fst (writeFileSync ?w3 (order_file K) (JSON_stringify2 (orderFromDB K)))")
       (simp_all add: getOrder_def miss_line_def published_line_def order_subject_def
          sc_encode_def Let_def)
qed

lemma getOrder_cases:
  assumes "getOrder w K = (res, w2)"
  obtains
    (read_error) e where "readOrderFromFile w K = (Inl e, w2)" "res = Inl e"
  | (hit) v w1 where "readOrderFromFile w K = (Inr v, w1)" "truthy v" "res = Inr v"
      "w2 = console_log (hit_line K) w1"
  | (write_error) v w1 e where "readOrderFromFile w K = (Inr v, w1)" "\<not> truthy v"
      "res = Inl e" "w2 = emit (OriginFetch K) (console_log (miss_line K) w1)"
      "\<not> can_write w1 (order_file K)"
  | (fetched) v w1 where "readOrderFromFile w K = (Inr v, w1)" "\<not> truthy v"
      "res = Inr (orderFromDB K)"
      "w2 = console_log (published_line K)
              (nc_publish (order_subject K) (JSON_stringify (orderFromDB K))
                (emit (FileWrite (order_file K) (JSON_stringify2 (orderFromDB K)))
                  ((emit (OriginFetch K) (console_log (miss_line K) w1))
                     \<lparr>entries := (entries w1)(order_file K \<mapsto> File (JSON_stringify2 (orderFromDB K))),
                      rdenied := (if entries w1 (order_file K) = None
                                  then rdenied w1 - {order_file K} else rdenied w1)\<rparr>)))"
      "can_write w1 (order_file K)"
proof -
  obtain r w1 where rd: "readOrderFromFile w K = (r, w1)" by (cases "readOrderFromFile w K")
  show ?thesis
  proof (cases r)
    case (Inl e)
    have "getOrder w K = (Inl e, w1)" using rd Inl by (simp add: getOrder_error)
    then have "res = Inl e" "w1 = w2" using assms by simp_all
    then show ?thesis using rd Inl read_error[of e] by simp
  next
    case (Inr v)
    show ?thesis
    proof (cases "truthy v")
      case True
      have "getOrder w K = (Inr v, console_log (hit_line K) w1)"
        using rd Inr True by (simp add: getOrder_hit)
      then have "res = Inr v" "w2 = console_log (hit_line K) w1" using assms by simp_all
      then show ?thesis using rd Inr True hit[of v w1] by simp
    next
      case False
      let ?w3 = "emit (OriginFetch K) (console_log (miss_line K) w1)"
      let ?c = "JSON_stringify2 (orderFromDB K)"
      obtain r4 w4 where wf: "writeFileSync ?w3 (order_file K) ?c = (r4, w4)"
        by (cases "writeFileSync ?w3 (order_file K) ?c")
      have cw: "can_write ?w3 (order_file K) = can_write w1 (order_file K)"
        by (simp add: can_write_def console_log_def)
      have fin: "(r4 = Inr ()) = can_write w1 (order_file K)"
        using writeFileSync_completes[of ?w3 "order_file K" ?c] wf cw by simp
      have g: "getOrder w K =
         (case (r4, w4) of
            (Inl e, w4) \<Rightarrow> (Inl e, w4)
          | (Inr u, w4) \<Rightarrow>
              (Inr (orderFromDB K),
               console_log (published_line K)
                 (nc_publish (order_subject K) (JSON_stringify (orderFromDB K)) w4)))"
        using getOrder_miss[of w K v w1] rd Inr False wf by simp
      show ?thesis
      proof (cases r4)
        case (Inl e)
        then have "w4 = ?w3" using wf writeFileSync_fail by blast
        then have "res = Inl e" "w2 = ?w3" using g Inl assms by simp_all
        moreover have "\<not> can_write w1 (order_file K)" using fin Inl by simp
        ultimately show ?thesis using rd \<open>r = Inr v\<close> False write_error[of v w1 e] by simp
      next
        case (Inr u)
        then have "w4 = emit (FileWrite (order_file K) ?c)
                         (?w3\<lparr>entries := (entries ?w3)(order_file K \<mapsto> File ?c),
                              rdenied := (if entries ?w3 (order_file K) = None
                                          then rdenied ?w3 - {order_file K} else rdenied ?w3)\<rparr>)"
          using wf writeFileSync_ok by blast
        then have w4: "w4 = emit (FileWrite (order_file K) ?c)
                         (?w3\<lparr>entries := (entries w1)(order_file K \<mapsto> File ?c),
                              rdenied := (if entries w1 (order_file K) = None
                                          then rdenied w1 - {order_file K} else rdenied w1)\<rparr>)"
          by (simp add: console_log_def)
        have cwt: "can_write w1 (order_file K)" using fin Inr by simp
        have "res = Inr (orderFromDB K)"
          "w2 = console_log (published_line K)
                  (nc_publish (order_subject K) (JSON_stringify (orderFromDB K)) w4)"
          using g Inr assms by simp_all
        then show ?thesis
          using rd \<open>r = Inr v\<close> False cwt fetched[of v w1] unfolding w4 by simp
      qed
    qed
  qed
qed

section \<open>Facts shared by the claims\<close>

lemma projections_emit [simp]:
  "fetches (emit e w) = fetches w @ (case e of OriginFetch k \<Rightarrow> [k] | _ \<Rightarrow> [])"
  "published (emit e w) = published w @ (case e of Publish s p \<Rightarrow> [(s, p)] | _ \<Rightarrow> [])"
  "written (emit e w) = written w @ (case e of FileWrite p c \<Rightarrow> [(p, c)] | _ \<Rightarrow> [])"
  by (simp_all add: fetches_def published_def written_def)

lemma projections_trace:
  "trace w1 = trace w \<Longrightarrow> fetches w1 = fetches w \<and> published w1 = published w \<and> written w1 = written w"
  by (simp add: fetches_def published_def written_def)

lemma projections_entries [simp]:
  "fetches (w\<lparr>entries := f\<rparr>) = fetches w" "published (w\<lparr>entries := f\<rparr>) = published w"
  "written (w\<lparr>entries := f\<rparr>) = written w"
  "fetches (w\<lparr>rdenied := s\<rparr>) = fetches w" "published (w\<lparr>rdenied := s\<rparr>) = published w"
  "written (w\<lparr>rdenied := s\<rparr>) = written w"
  by (simp_all add: fetches_def published_def written_def)

lemma readOrderFromFile_frame:
  assumes "readOrderFromFile w K = (r, w1)"
  shows "trace w1 = trace w" "wdenied w1 = wdenied w"
    "(entries w1 p = Some (File c)) = (entries w p = Some (File c))"
    "entries w1 (order_file K') = entries w (order_file K')"
    "rdenied w1 = rdenied w"
proof -
  have "ensureCacheDir w = (fst (ensureCacheDir w), w1)"
    using readOrderFromFile_world[of w K] assms by (simp add: prod_eq_iff)
  then show "trace w1 = trace w" "wdenied w1 = wdenied w"
    "(entries w1 p = Some (File c)) = (entries w p = Some (File c))"
    "entries w1 (order_file K') = entries w (order_file K')"
    "rdenied w1 = rdenied w"
    using ensureCacheDir_frame(1,2,5,6) ensureCacheDir_order_file by blast+
qed

lemma read_when_dir:
  "existsSync w ''/tmp/cache/orders'' \<Longrightarrow> readOrderFromFile w K = (read_entry w K, w)"
  using ensureCacheDir_exists readOrderFromFile_eq by blast


lemma read_entry_cong:
  "entries w1 (order_file K) = entries w (order_file K) \<Longrightarrow> rdenied w1 = rdenied w \<Longrightarrow>
   read_entry w1 K = read_entry w K"
  by (simp add: read_entry_def split: option.splits fs_entry.splits)

lemma read_entry_Inr:
  "read_entry w K = Inr v \<Longrightarrow>
   entries w (order_file K) = None \<or> order_file K \<notin> rdenied w"
  by (auto simp: read_entry_def split: option.splits fs_entry.splits if_splits)

lemma index_key_letter: "\<not> is_digit c \<Longrightarrow> \<not> index_key (c # cs)"
  by (simp add: index_key_def)

lemma orderFromDB_js_value: "js_value (orderFromDB K)"
  by (simp add: orderFromDB_def index_key_letter is_digit_def code_def max_safe_integer_def)

lemma orderFromDB_truthy: "truthy (orderFromDB K)"
  by (simp add: orderFromDB_def)

text \<open>After a lookup that hit, the same key hits again.\<close>

lemma hit_stable:
  assumes "readOrderFromFile w K = (Inr v, w1)"
  shows "readOrderFromFile (console_log line w1) K = (Inr v, console_log line w1)"
proof -
  have ex: "existsSync w1 ''/tmp/cache/orders''"
    using readOrderFromFile_Inr(1)[OF assms] ensureCacheDir_ok(2) by blast
  have "read_entry w1 K = read_entry w K"
    using readOrderFromFile_frame(4,5)[OF assms] by (rule read_entry_cong)
  moreover have "read_entry (console_log line w1) K = read_entry w1 K"
    by (rule read_entry_cong) (simp_all add: console_log_def)
  ultimately have "read_entry (console_log line w1) K = Inr v"
    using readOrderFromFile_Inr(2)[OF assms] by simp
  moreover have "existsSync (console_log line w1) ''/tmp/cache/orders''"
    using ex by (simp add: console_log_def)
  ultimately show ?thesis using read_when_dir by simp
qed

text \<open>After a lookup that fetched, the key hits with the fetched order.\<close>

lemma fetched_stable:
  assumes "readOrderFromFile w K = (Inr v, w1)"
    and "w2 = console_log l2
              (nc_publish s p
                (emit (FileWrite (order_file K) (JSON_stringify2 (orderFromDB K)))
                  ((emit (OriginFetch K) (console_log l1 w1))
                     \<lparr>entries := (entries w1)(order_file K \<mapsto> File (JSON_stringify2 (orderFromDB K))),
                      rdenied := (if entries w1 (order_file K) = None
                                  then rdenied w1 - {order_file K} else rdenied w1)\<rparr>)))"
  shows "readOrderFromFile w2 K = (Inr (orderFromDB K), w2)"
    "entries w2 (order_file K) = Some (File (JSON_stringify2 (orderFromDB K)))"
    "trace w2 = trace w @ [ConsoleLog l1, OriginFetch K,
        FileWrite (order_file K) (JSON_stringify2 (orderFromDB K)), Publish s p, ConsoleLog l2]"
proof -
  have ex: "existsSync w1 ''/tmp/cache/orders''"
    using readOrderFromFile_Inr(1)[OF assms(1)] ensureCacheDir_ok(2) by blast
  have e2: "entries w2 = (entries w1)(order_file K \<mapsto> File (JSON_stringify2 (orderFromDB K)))"
    by (simp add: assms(2) console_log_def nc_publish_def)
  show e3: "entries w2 (order_file K) = Some (File (JSON_stringify2 (orderFromDB K)))"
    by (simp add: e2)
  have r2: "rdenied w2 = (if entries w1 (order_file K) = None
                          then rdenied w1 - {order_file K} else rdenied w1)"
    by (simp add: assms(2) console_log_def nc_publish_def)
  have "read_entry w1 K = Inr v"
    using readOrderFromFile_Inr(2)[OF assms(1)] readOrderFromFile_frame(4,5)[OF assms(1)]
      read_entry_cong[of w1 K w] by simp
  then have "order_file K \<notin> rdenied w2"
    using read_entry_Inr[of w1 K v] r2 by auto
  then have "read_entry w2 K = Inr (orderFromDB K)"
    using e3 JSON_parse_stringify2[OF orderFromDB_js_value[of K]] by (simp add: read_entry_def)
  moreover have "existsSync w2 ''/tmp/cache/orders''"
    using ex order_file_not_dir[of K] by (auto simp: existsSync_def e2)
  ultimately show "readOrderFromFile w2 K = (Inr (orderFromDB K), w2)"
    using read_when_dir by simp
  show "trace w2 = trace w @ [ConsoleLog l1, OriginFetch K,
        FileWrite (order_file K) (JSON_stringify2 (orderFromDB K)), Publish s p, ConsoleLog l2]"
    using readOrderFromFile_frame(1)[OF assms(1)]
    by (simp add: assms(2) console_log_def nc_publish_def)
qed

lemma lookups_hits:
  assumes "fst (readOrderFromFile w K) = Inr v" "truthy v"
  shows "fst (lookups n w K) = replicate n (Inr v) \<and> fetches (snd (lookups n w K)) = fetches w"
  using assms(1)
proof (induction n arbitrary: w)
  case 0
  then show ?case by simp
next
  case (Suc n)
  obtain w1 where rd: "readOrderFromFile w K = (Inr v, w1)"
    using Suc.prems by (cases "readOrderFromFile w K") simp
  let ?w = "console_log (hit_line K) w1"
  have g: "getOrder w K = (Inr v, ?w)" using rd assms(2) by (rule getOrder_hit)
  have "fst (readOrderFromFile ?w K) = Inr v" using hit_stable[OF rd] by simp
  from Suc.IH[OF this]
  have "fst (lookups n ?w K) = replicate n (Inr v)" "fetches (snd (lookups n ?w K)) = fetches ?w"
    by simp_all
  moreover have "fetches ?w = fetches w"
    using readOrderFromFile_frame(1)[OF rd] projections_trace[of w1 w]
    by (simp add: console_log_def)
  ultimately show ?case using g by (simp add: split_beta)
qed

section \<open>The subscription callback\<close>

lemma mkdirs_emit: "mkdirs (emit e w) ds = (fst (mkdirs w ds), emit e (snd (mkdirs w ds)))"
proof (induction ds arbitrary: w)
  case Nil
  then show ?case by simp
next
  case (Cons d ds)
  have u: "(emit e w)\<lparr>entries := f\<rparr> = emit e (w\<lparr>entries := f\<rparr>)" for f
    by (simp add: emit_def)
  show ?case
  proof (cases "entries w d")
    case None
    then show ?thesis
      using Cons.IH[of "w\<lparr>entries := (entries w)(d \<mapsto> Dir)\<rparr>"]
      by (simp add: mkdirs_Cons_None u)
  next
    case (Some x)
    then show ?thesis
      using Cons.IH[of w] by (cases x) (simp_all add: mkdirs_Cons_Dir mkdirs_Cons_File)
  qed
qed

lemma ensureCacheDir_emit:
  "ensureCacheDir (emit e w) = (fst (ensureCacheDir w), emit e (snd (ensureCacheDir w)))"
  by (simp add: ensureCacheDir_unfold mkdirs_emit split_beta split: sum.splits)

lemma write_completes_emit: "write_completes (emit e w) K = write_completes w K"
  by (simp add: write_completes_def cache_dir_available_def creatable_def ensureCacheDir_emit
        can_write_def)

lemma callback_error:
  "callback w (Some e) m = (Inr (), console_error (''Error receiving message: '' @ e) w)"
  by (simp add: callback_def)

lemma callback_malformed:
  "JSON_parse (data m) = Inl e \<Longrightarrow>
   callback w None m =
     (Inl e, console_log (''Received message for order '' @ subject_orderId (subject m) @ '': '' @ data m) w)"
  by (simp add: callback_def sc_decode_def Let_def)

lemma callback_value:
  "JSON_parse (data m) = Inr v \<Longrightarrow>
   callback w None m =
     writeOrderToFile
       (console_log (''Received message for order '' @ subject_orderId (subject m) @ '': '' @ data m) w)
       (subject_orderId (subject m)) v"
  by (simp add: callback_def sc_decode_def Let_def)

lemma delivery_orderId:
  "subject_orderId (subject (delivery K payload)) = takeWhile (\<lambda>c. c \<noteq> CHR ''.'') K"
proof -
  have "subject (delivery K payload) = ''cache.orders.'' @ K"
    by (simp only: delivery_def order_subject_def msg.select_convs)
  then show ?thesis by (simp only: subject_orderId_cache)
qed

lemma callback_delivery:
  "JSON_parse payload = Inr v \<Longrightarrow>
   callback w None (delivery K payload) =
     writeOrderToFile
       (console_log (''Received message for order '' @ takeWhile (\<lambda>c. c \<noteq> CHR ''.'') K @ '': '' @ payload) w)
       (takeWhile (\<lambda>c. c \<noteq> CHR ''.'') K) v"
  using callback_value[of "delivery K payload" v w] delivery_orderId[of K payload]
  by (simp add: delivery_def)

text \<open>When a delivery completes, and what it leaves behind.\<close>

lemma callback_completes:
  "(fst (callback w None (delivery K payload)) = Inr ())
   = (\<exists>v. JSON_parse payload = Inr v \<and> write_completes w (takeWhile (\<lambda>c. c \<noteq> CHR ''.'') K))"
proof (cases "JSON_parse payload")
  case (Inl e)
  then show ?thesis
    using callback_malformed[of "delivery K payload" e w] by (simp add: delivery_def)
next
  case (Inr v)
  then show ?thesis
    using callback_delivery[OF Inr, of w K]
    by (simp add: writeOrderToFile_completes console_log_def write_completes_emit)
qed

lemma callback_stored:
  assumes "callback w None (delivery K payload) = (Inr u, w1)"
  shows "\<exists>v. JSON_parse payload = Inr v
           \<and> entries w1 (order_file (takeWhile (\<lambda>c. c \<noteq> CHR ''.'') K)) = Some (File (JSON_stringify2 v))
           \<and> written w1 = written w @ [(order_file (takeWhile (\<lambda>c. c \<noteq> CHR ''.'') K), JSON_stringify2 v)]
           \<and> fetches w1 = fetches w \<and> published w1 = published w
           \<and> existsSync w1 ''/tmp/cache/orders''"
proof (cases "JSON_parse payload")
  case (Inl e)
  then show ?thesis
    using assms callback_malformed[of "delivery K payload" e w] by (simp add: delivery_def)
next
  case (Inr v)
  let ?k = "takeWhile (\<lambda>c. c \<noteq> CHR ''.'') K"
  let ?w = "console_log (''Received message for order '' @ ?k @ '': '' @ payload) w"
  have wr: "writeOrderToFile ?w ?k v = (Inr u, w1)"
    using callback_delivery[OF Inr, of w K] assms by simp
  have t: "trace w1 = trace w @ [ConsoleLog (''Received message for order '' @ ?k @ '': '' @ payload),
                                 FileWrite (order_file ?k) (JSON_stringify2 v)]"
    using writeOrderToFile_ok(2)[OF wr] by (simp add: console_log_def)
  have "written w1 = written w @ [(order_file ?k, JSON_stringify2 v)]"
    "fetches w1 = fetches w" "published w1 = published w"
    by (simp_all add: t written_def fetches_def published_def)
  then show ?thesis
    using Inr writeOrderToFile_ok(1,4)[OF wr] by simp
qed

text \<open>A delivery that does not complete writes no file and publishes nothing.\<close>

lemma callback_failed:
  assumes "callback w None (delivery K payload) = (Inl e, w1)"
  shows "written w1 = written w" "fetches w1 = fetches w" "published w1 = published w"
    "(entries w1 p = Some (File c)) = (entries w p = Some (File c))"
proof -
  let ?k = "takeWhile (\<lambda>c. c \<noteq> CHR ''.'') K"
  let ?w = "console_log (''Received message for order '' @ ?k @ '': '' @ payload) w"
  have "trace w1 = trace ?w \<and> ((entries w1 p = Some (File c)) = (entries w p = Some (File c)))"
  proof (cases "JSON_parse payload")
    case (Inl x)
    then show ?thesis
      using assms callback_malformed[of "delivery K payload" x w] delivery_orderId[of K payload]
      by (simp add: delivery_def console_log_def)
  next
    case (Inr v)
    then have "writeOrderToFile ?w ?k v = (Inl e, w1)"
      using callback_delivery[OF Inr, of w K] assms by simp
    from writeOrderToFile_failed(1)[OF this] writeOrderToFile_failed(2)[OF this, of p c]
    show ?thesis by (simp add: console_log_def)
  qed
  then show "written w1 = written w" "fetches w1 = fetches w" "published w1 = published w"
    "(entries w1 p = Some (File c)) = (entries w p = Some (File c))"
    by (simp_all add: written_def fetches_def published_def console_log_def)
qed

section \<open>The outcomes of a lookup\<close>

lemma write_completes_after_read:
  assumes "readOrderFromFile w K = (Inr v, w1)"
  shows "write_completes w K' = can_write w1 (order_file K')"
proof -
  have e: "ensureCacheDir w = (Inr ''/tmp/cache/orders'', w1)"
    using readOrderFromFile_Inr(1)[OF assms] .
  then have "cache_dir_available w" using ensureCacheDir_completes[of w] by simp
  then show ?thesis using e by (simp add: write_completes_def)
qed

text \<open>The miss branch, in terms of the write that it calls.\<close>

lemma getOrder_miss_write:
  assumes "readOrderFromFile w K = (Inr v, w1)" "\<not> truthy v"
  shows "getOrder w K =
     (case writeOrderToFile (emit (OriginFetch K) (console_log (miss_line K) w1)) K (orderFromDB K) of
        (Inl e, w4) \<Rightarrow> (Inl e, w4)
      | (Inr u, w4) \<Rightarrow>
          (Inr (orderFromDB K),
           console_log (published_line K)
             (nc_publish (order_subject K) (JSON_stringify (orderFromDB K)) w4)))"
  using assms
  by (cases "writeOrderToFile (emit (OriginFetch K) (console_log (miss_line K) w1)) K (orderFromDB K)"
          rule: prod.exhaust [case_names Pair];
      cases "fst (writeOrderToFile (emit (OriginFetch K) (console_log (miss_line K) w1)) K (orderFromDB K))")
     (simp_all add: getOrder_def miss_line_def published_line_def order_subject_def
        sc_encode_def Let_def)

lemma write_at_miss:
  assumes "readOrderFromFile w K = (Inr v, w1)"
  shows "(fst (writeOrderToFile (emit (OriginFetch K) (console_log (miss_line K) w1)) K x) = Inr ())
         = write_completes w K"
proof -
  have e: "ensureCacheDir w = (Inr ''/tmp/cache/orders'', w1)"
    using readOrderFromFile_Inr(1)[OF assms] .
  have i: "ensureCacheDir w1 = (Inr ''/tmp/cache/orders'', w1)"
    using e by (rule ensureCacheDir_idem)
  have "cache_dir_available w1" using i ensureCacheDir_completes[of w1] by simp
  then have "write_completes w1 K = can_write w1 (order_file K)"
    using i by (simp add: write_completes_def)
  then show ?thesis
    by (simp add: writeOrderToFile_completes console_log_def write_completes_emit
          write_completes_after_read[OF assms])
qed

lemma getOrder_outcomes:
  assumes "getOrder w K = (res, w2)"
  obtains
    (error) e where "fst (readOrderFromFile w K) = Inl e" "res = Inl e" "trace w2 = trace w"
      "\<forall>p c. (entries w2 p = Some (File c)) = (entries w p = Some (File c))"
  | (hit) v where "fst (readOrderFromFile w K) = Inr v" "truthy v" "res = Inr v"
      "trace w2 = trace w @ [ConsoleLog (hit_line K)]"
      "\<forall>p c. (entries w2 p = Some (File c)) = (entries w p = Some (File c))"
  | (failed) v e where "fst (readOrderFromFile w K) = Inr v" "\<not> truthy v"
      "\<not> write_completes w K" "res = Inl e"
      "trace w2 = trace w @ [ConsoleLog (miss_line K), OriginFetch K]"
      "\<forall>p c. (entries w2 p = Some (File c)) = (entries w p = Some (File c))"
  | (fetched) v where "fst (readOrderFromFile w K) = Inr v" "\<not> truthy v"
      "write_completes w K" "res = Inr (orderFromDB K)"
      "trace w2 = trace w @
         [ConsoleLog (miss_line K), OriginFetch K,
          FileWrite (order_file K) (JSON_stringify2 (orderFromDB K)),
          Publish (order_subject K) (JSON_stringify (orderFromDB K)),
          ConsoleLog (published_line K)]"
      "entries w2 (order_file K) = Some (File (JSON_stringify2 (orderFromDB K)))"
      "readOrderFromFile w2 K = (Inr (orderFromDB K), w2)"
  using assms
proof (cases rule: getOrder_cases)
  case (read_error e)
  have "\<forall>p c. (entries w2 p = Some (File c)) = (entries w p = Some (File c))"
    using readOrderFromFile_frame(3)[OF read_error(1)] by blast
  then show ?thesis
    using read_error readOrderFromFile_frame(1)[OF read_error(1)] error[of e] by simp
next
  case (hit v w1)
  have "\<forall>p c. (entries w2 p = Some (File c)) = (entries w p = Some (File c))"
    using readOrderFromFile_frame(3)[OF hit(1)] hit(4) by (simp add: console_log_def)
  moreover have "trace w2 = trace w @ [ConsoleLog (hit_line K)]"
    using readOrderFromFile_frame(1)[OF hit(1)] hit(4) by (simp add: console_log_def)
  ultimately show ?thesis using hit that(2)[of v] by simp
next
  case (write_error v w1 e)
  have "\<forall>p c. (entries w2 p = Some (File c)) = (entries w p = Some (File c))"
    using readOrderFromFile_frame(3)[OF write_error(1)] write_error(4)
    by (simp add: console_log_def)
  moreover have "trace w2 = trace w @ [ConsoleLog (miss_line K), OriginFetch K]"
    using readOrderFromFile_frame(1)[OF write_error(1)] write_error(4)
    by (simp add: console_log_def)
  moreover have "\<not> write_completes w K"
    using write_error(5) write_completes_after_read[OF write_error(1), of K] by simp
  ultimately show ?thesis using write_error failed[of v e] by simp
next
  case (fetched v w1)
  have "write_completes w K"
    using fetched(5) write_completes_after_read[OF fetched(1), of K] by simp
  then show ?thesis
    using fetched(1,2,3) fetched_stable[OF fetched(1,4)] that(4)[of v] by simp
qed

text \<open>A lookup leaves every file other than the entry file of its key as it was.\<close>

lemma getOrder_other_files:
  assumes "getOrder w K = (res, w2)" "p \<noteq> order_file K"
  shows "(entries w2 p = Some (File c)) = (entries w p = Some (File c))"
  using assms(1)
proof (cases rule: getOrder_cases)
  case (read_error e)
  then show ?thesis using readOrderFromFile_frame(3) by blast
next
  case (hit v w1)
  then show ?thesis using readOrderFromFile_frame(3)[OF hit(1)] by (simp add: console_log_def)
next
  case (write_error v w1 e)
  then show ?thesis
    using readOrderFromFile_frame(3)[OF write_error(1)] by (simp add: console_log_def)
next
  case (fetched v w1)
  then show ?thesis
    using readOrderFromFile_frame(3)[OF fetched(1), of p c] assms(2)
    by (simp add: console_log_def nc_publish_def)
qed

text \<open>After a lookup that returned a value, the read of the key returns that value.\<close>

lemma getOrder_then_read:
  assumes "getOrder w K = (Inr v, w2)"
  shows "fst (readOrderFromFile w2 K) = Inr v \<and> truthy v"
  using assms
proof (cases rule: getOrder_cases)
  case (hit v' w0)
  then show ?thesis using hit_stable[OF hit(1), of "hit_line K"] by simp
next
  case (fetched v' w0)
  then show ?thesis
    using fetched_stable(1)[OF fetched(1,4)] orderFromDB_truthy[of K] by simp
qed simp_all

section \<open>A delivery followed by a read\<close>

lemma delivery_key: "CHR ''.'' \<notin> set K \<Longrightarrow> takeWhile (\<lambda>c. c \<noteq> CHR ''.'') K = K"
  by (simp add: takeWhile_eq_all_conv) blast

lemma delivery_then_read:
  assumes "js_value E" "CHR ''.'' \<notin> set K"
    and "callback w None (delivery K (JSON_stringify E)) = (Inr u, w1)"
  shows "entries w1 (order_file K) = Some (File (JSON_stringify2 E))"
    "fetches w1 = fetches w" "published w1 = published w"
    "readOrderFromFile w1 K =
       (if entries w (order_file K) \<noteq> None \<and> order_file K \<in> rdenied w then Inl EACCES
        else Inr E, w1)"
proof -
  have p: "JSON_parse (JSON_stringify E) = Inr E" using assms(1) by (rule JSON_parse_stringify)
  have k: "takeWhile (\<lambda>c. c \<noteq> CHR ''.'') K = K" using assms(2) by (rule delivery_key)
  let ?w = "console_log (''Received message for order '' @ K @ '': '' @ JSON_stringify E) w"
  have wr: "writeOrderToFile ?w K E = (Inr u, w1)"
    using callback_delivery[OF p, of w K] assms(3) k by simp
  from read_after_write[OF assms(1) wr]
  show "readOrderFromFile w1 K =
       (if entries w (order_file K) \<noteq> None \<and> order_file K \<in> rdenied w then Inl EACCES
        else Inr E, w1)"
    by (simp add: console_log_def)
  from callback_stored[OF assms(3)] p k
  show "entries w1 (order_file K) = Some (File (JSON_stringify2 E))"
    "fetches w1 = fetches w" "published w1 = published w"
    by simp_all
qed

section \<open>The claims\<close>

text \<open>
  C1 (persist before publish). Let \<open>res\<close> and \<open>w2\<close> be the result of a lookup of a key
  and the node after it. The lookup publishes exactly when it is a miss (the read
  returns a falsy value) whose write completes. Whenever it publishes, its events are, in
  this order: the miss line, the origin fetch, the write of the fetched order to the
  entry file of the key, the publication of the fetched order on the subject of the key,
  the closing line. The entry file then holds the fetched order, a read of the key on the
  node returns it, and the next lookup of the key returns it without a new fetch.
\<close>

theorem C1_persist_before_publish:
  assumes "getOrder w K = (res, w2)"
  shows "((published w2 \<noteq> published w)
            = ((\<exists>v. fst (readOrderFromFile w K) = Inr v \<and> \<not> truthy v) \<and> write_completes w K))
       \<and> (published w2 \<noteq> published w \<longrightarrow>
            trace w2 = trace w @
              [ConsoleLog (miss_line K), OriginFetch K,
               FileWrite (order_file K) (JSON_stringify2 (orderFromDB K)),
               Publish (order_subject K) (JSON_stringify (orderFromDB K)),
               ConsoleLog (published_line K)]
            \<and> res = Inr (orderFromDB K)
            \<and> entries w2 (order_file K) = Some (File (JSON_stringify2 (orderFromDB K)))
            \<and> readOrderFromFile w2 K = (Inr (orderFromDB K), w2)
            \<and> fst (getOrder w2 K) = Inr (orderFromDB K)
            \<and> fetches (snd (getOrder w2 K)) = fetches w2)"
  using assms
proof (cases rule: getOrder_outcomes)
  case (error e)
  then show ?thesis using projections_trace[of w2 w] by simp
next
  case (hit v)
  then show ?thesis by (simp add: published_def)
next
  case (failed v e)
  then show ?thesis by (simp add: published_def)
next
  case (fetched v)
  have "fst (readOrderFromFile w2 K) = Inr (orderFromDB K)" using fetched(7) by simp
  from lookups_hits[OF this orderFromDB_truthy, of "Suc 0"]
  have "fst (getOrder w2 K) = Inr (orderFromDB K)" "fetches (snd (getOrder w2 K)) = fetches w2"
    by (simp_all add: split_beta)
  moreover have "published w2 \<noteq> published w" using fetched(5) by (simp add: published_def)
  ultimately show ?thesis using fetched by simp
qed

theorem C1_persist_before_publish_witness:
  "published (snd (getOrder empty_world ''42'')) \<noteq> published empty_world
   \<and> trace (snd (getOrder empty_world ''42'')) =
       [ConsoleLog (miss_line ''42''), OriginFetch ''42'',
        FileWrite (order_file ''42'') (JSON_stringify2 (orderFromDB ''42'')),
        Publish (order_subject ''42'') (JSON_stringify (orderFromDB ''42'')),
        ConsoleLog (published_line ''42'')]
   \<and> fst (readOrderFromFile (snd (getOrder empty_world ''42'')) ''42'') = Inr (orderFromDB ''42'')"
proof -
  have a: "getOrder empty_world ''42''
           = (fst (getOrder empty_world ''42''), snd (getOrder empty_world ''42''))"
    by simp
  have b: "published (snd (getOrder empty_world ''42'')) \<noteq> published empty_world"
    by code_simp
  have c: "trace empty_world = []" by (simp add: empty_world_def)
  from C1_persist_before_publish[OF a] show ?thesis using b c by simp
qed

text \<open>
  C2 (cache precedence), as it holds. For every key whose read returns a truthy value
  (an object, an array, \<^verbatim>\<open>true\<close>, a number other than zero, a non-empty string),
  \<open>getOrder\<close> returns that value and its only event is the line on the console: no
  origin fetch, no write, no publication, and every file keeps its content.
\<close>

theorem C2_hit_has_no_side_effect:
  assumes "fst (readOrderFromFile w K) = Inr v" and "truthy v"
  shows "fst (getOrder w K) = Inr v
       \<and> trace (snd (getOrder w K)) = trace w @ [ConsoleLog (hit_line K)]
       \<and> fetches (snd (getOrder w K)) = fetches w
       \<and> written (snd (getOrder w K)) = written w
       \<and> published (snd (getOrder w K)) = published w
       \<and> (\<forall>p c. (entries (snd (getOrder w K)) p = Some (File c)) = (entries w p = Some (File c)))"
proof -
  obtain w1 where rd: "readOrderFromFile w K = (Inr v, w1)"
    using assms(1) by (cases "readOrderFromFile w K") simp
  have g: "getOrder w K = (Inr v, console_log (hit_line K) w1)"
    using rd assms(2) by (rule getOrder_hit)
  have t: "trace (console_log (hit_line K) w1) = trace w @ [ConsoleLog (hit_line K)]"
    using readOrderFromFile_frame(1)[OF rd] by (simp add: console_log_def)
  have f: "(entries (snd (getOrder w K)) p = Some (File c)) = (entries w p = Some (File c))" for p c
    using g readOrderFromFile_frame(3)[OF rd, of p c] by (simp add: console_log_def)
  show ?thesis using g f by (simp add: t fetches_def written_def published_def)
qed

theorem C2_hit_has_no_side_effect_witness:
  "fst (readOrderFromFile (disk_with ''42'' (JSON_stringify2 sample_order)) ''42'') = Inr sample_order
   \<and> truthy sample_order
   \<and> fst (getOrder (disk_with ''42'' (JSON_stringify2 sample_order)) ''42'') = Inr sample_order
   \<and> fetches (snd (getOrder (disk_with ''42'' (JSON_stringify2 sample_order)) ''42'')) = []"
proof -
  have a: "fst (readOrderFromFile (disk_with ''42'' (JSON_stringify2 sample_order)) ''42'') = Inr sample_order"
    by code_simp
  have b: "truthy sample_order" by code_simp
  have c: "fetches (disk_with ''42'' (JSON_stringify2 sample_order)) = []"
    by (simp add: disk_with_def fetches_def)
  from C2_hit_has_no_side_effect[OF a b] show ?thesis using a b c by simp
qed

text \<open>
  C2 as stated fails on a stored value that is falsy: the entry of key \<^verbatim>\<open>5\<close> holds
  \<^verbatim>\<open>false\<close>, the read returns it, and \<open>getOrder\<close> fetches from the origin, overwrites
  the entry, publishes and returns the fetched order.
\<close>

theorem C2_counterexample:
  "entries (disk_with ''5'' ''false'') (order_file ''5'') = Some (File ''false'')
   \<and> fst (readOrderFromFile (disk_with ''5'' ''false'') ''5'') = Inr (JBool False)
   \<and> fst (getOrder (disk_with ''5'' ''false'') ''5'') = Inr (orderFromDB ''5'')
   \<and> fetches (snd (getOrder (disk_with ''5'' ''false'') ''5'')) = [''5'']
   \<and> written (snd (getOrder (disk_with ''5'' ''false'') ''5''))
       = [(order_file ''5'', JSON_stringify2 (orderFromDB ''5''))]
   \<and> published (snd (getOrder (disk_with ''5'' ''false'') ''5''))
       = [(order_subject ''5'', JSON_stringify (orderFromDB ''5''))]"
  by code_simp




text \<open>
  C4 (known values are served), as it holds. Once the read of a key returns a truthy
  value, every one of any number of successive lookups of the key returns that value and
  none fetches from the origin. That is so after a lookup that returned a value, and
  after the subscription callback completed on a truthy value delivered on the subject of
  a key without a dot, provided the read of what it wrote is not refused. On the empty
  store the lookup of \<^verbatim>\<open>42\<close> fetches once and returns the order with id \<^verbatim>\<open>42\<close> and
  all five fields, and every later lookup of \<^verbatim>\<open>42\<close> returns the same order with no
  further fetch.
\<close>

theorem C4_known_value_is_served:
  "(fst (readOrderFromFile w K) = Inr v \<longrightarrow> truthy v \<longrightarrow>
      fst (lookups n w K) = replicate n (Inr v) \<and> fetches (snd (lookups n w K)) = fetches w)
   \<and> (getOrder w K = (Inr v, w1) \<longrightarrow>
        fst (lookups n w1 K) = replicate n (Inr v) \<and> fetches (snd (lookups n w1 K)) = fetches w1)
   \<and> (js_value v \<longrightarrow> truthy v \<longrightarrow> CHR ''.'' \<notin> set K \<longrightarrow>
        callback w None (delivery K (JSON_stringify v)) = (Inr u, w1) \<longrightarrow>
        fst (readOrderFromFile w1 K) \<noteq> Inl EACCES \<longrightarrow>
        fst (lookups n w1 K) = replicate n (Inr v) \<and> fetches (snd (lookups n w1 K)) = fetches w)
   \<and> fst (getOrder empty_world ''42'')
        = Inr (JObj [(''id'', JStr ''42''), (''customer'', JStr ''John Doe''),
                     (''product'', JStr ''Laptop''), (''quantity'', JNum 2),
                     (''status'', JStr ''shipped'')])
   \<and> fetches (snd (getOrder empty_world ''42'')) = [''42'']
   \<and> fst (lookups n (snd (getOrder empty_world ''42'')) ''42'')
        = replicate n (fst (getOrder empty_world ''42''))
   \<and> fetches (snd (lookups n (snd (getOrder empty_world ''42'')) ''42'')) = [''42'']"
proof -
  have served: "fst (lookups n w K) = replicate n (Inr v) \<and> fetches (snd (lookups n w K)) = fetches w"
    if "fst (readOrderFromFile w K) = Inr v" "truthy v" for w K v n
    using that by (rule lookups_hits)
  have after: "fst (lookups n w1 K) = replicate n (Inr v) \<and> fetches (snd (lookups n w1 K)) = fetches w1"
    if g: "getOrder w K = (Inr v, w1)" for w K v w1 n
    using getOrder_then_read[OF g] served by blast
  have delivered: "fst (lookups n w1 K) = replicate n (Inr v) \<and> fetches (snd (lookups n w1 K)) = fetches w"
    if "js_value v" "truthy v" "CHR ''.'' \<notin> set K"
      "callback w None (delivery K (JSON_stringify v)) = (Inr u, w1)"
      "fst (readOrderFromFile w1 K) \<noteq> Inl EACCES"
  proof -
    have "fst (readOrderFromFile w1 K) = Inr v"
      using delivery_then_read(4)[OF that(1,3,4)] that(5) by (simp split: if_splits)
    from served[OF this that(2), of n] show ?thesis
      using delivery_then_read(2)[OF that(1,3,4)] by simp
  qed
  have a: "fst (getOrder empty_world ''42'') = Inr (orderFromDB ''42'')" by code_simp
  then have a': "fst (getOrder empty_world ''42'')
           = Inr (JObj [(''id'', JStr ''42''), (''customer'', JStr ''John Doe''),
                        (''product'', JStr ''Laptop''), (''quantity'', JNum 2),
                        (''status'', JStr ''shipped'')])"
    by (simp add: orderFromDB_def)
  have b: "fetches (snd (getOrder empty_world ''42'')) = [''42'']" by code_simp
  have "getOrder empty_world ''42'' = (Inr (orderFromDB ''42''), snd (getOrder empty_world ''42''))"
    using a by (simp add: prod_eq_iff)
  from after[OF this, of n]
  have c: "fst (lookups n (snd (getOrder empty_world ''42'')) ''42'')
           = replicate n (fst (getOrder empty_world ''42''))"
    "fetches (snd (lookups n (snd (getOrder empty_world ''42'')) ''42'')) = [''42'']"
    using a b by simp_all
  show ?thesis using served[of w K v n] after[of w K v w1 n] delivered a' b c by blast
qed

theorem C4_known_value_is_served_witness:
  "fst (readOrderFromFile (disk_with ''42'' (JSON_stringify2 sample_order)) ''42'') = Inr sample_order
   \<and> truthy sample_order
   \<and> fst (lookups 3 (disk_with ''42'' (JSON_stringify2 sample_order)) ''42'')
       = [Inr sample_order, Inr sample_order, Inr sample_order]
   \<and> fetches (snd (lookups 3 (disk_with ''42'' (JSON_stringify2 sample_order)) ''42'')) = []
   \<and> fst (getOrder empty_world ''7'') = Inr (orderFromDB ''7'')
   \<and> fst (lookups 2 (snd (getOrder empty_world ''7'')) ''7'')
       = [Inr (orderFromDB ''7''), Inr (orderFromDB ''7'')]
   \<and> js_value sample_order
   \<and> fst (callback empty_world None (delivery ''42'' (JSON_stringify sample_order))) = Inr ()
   \<and> fst (lookups 2 (snd (callback empty_world None (delivery ''42'' (JSON_stringify sample_order))))
             ''42'')
       = [Inr sample_order, Inr sample_order]
   \<and> fetches (snd (lookups 2
                (snd (callback empty_world None (delivery ''42'' (JSON_stringify sample_order))))
                ''42'')) = []"
proof -
  let ?cb = "callback empty_world None (delivery ''42'' (JSON_stringify sample_order))"
  have a: "fst (readOrderFromFile (disk_with ''42'' (JSON_stringify2 sample_order)) ''42'') = Inr sample_order"
    by code_simp
  have b: "truthy sample_order" by code_simp
  have c: "fetches (disk_with ''42'' (JSON_stringify2 sample_order)) = []"
    "fetches empty_world = []"
    by (simp_all add: disk_with_def empty_world_def fetches_def)
  have d0: "fst (getOrder empty_world ''7'') = Inr (orderFromDB ''7'')" by code_simp
  then have d: "getOrder empty_world ''7'' = (Inr (orderFromDB ''7''), snd (getOrder empty_world ''7''))"
    by (simp add: prod_eq_iff)
  have e: "js_value sample_order" by code_simp
  have f: "CHR ''.'' \<notin> set ''42''" by simp
  have g0: "fst ?cb = Inr ()" by code_simp
  then have g: "?cb = (Inr (), snd ?cb)" by (simp add: prod_eq_iff)
  have h: "fst (readOrderFromFile (snd ?cb) ''42'') \<noteq> Inl EACCES" by code_simp
  have r3: "replicate 3 x = [x, x, x]" for x :: "error + json" by (simp add: numeral_3_eq_3)
  have r2: "replicate 2 x = [x, x]" for x :: "error + json" by (simp add: numeral_2_eq_2)
  from C4_known_value_is_served[of "disk_with ''42'' (JSON_stringify2 sample_order)" "''42''"
         sample_order 3]
  have i1: "fst (lookups 3 (disk_with ''42'' (JSON_stringify2 sample_order)) ''42'')
              = [Inr sample_order, Inr sample_order, Inr sample_order]
            \<and> fetches (snd (lookups 3 (disk_with ''42'' (JSON_stringify2 sample_order)) ''42'')) = []"
    using a b c by (simp add: r3)
  from C4_known_value_is_served[of empty_world "''7''" "orderFromDB ''7''" 2
         "snd (getOrder empty_world ''7'')"]
  have i2: "fst (lookups 2 (snd (getOrder empty_world ''7'')) ''7'')
              = [Inr (orderFromDB ''7''), Inr (orderFromDB ''7'')]"
    using d by (simp add: r2)
  from C4_known_value_is_served[of empty_world "''42''" sample_order 2 "snd ?cb" "()"]
  have i3: "fst (lookups 2 (snd ?cb) ''42'') = [Inr sample_order, Inr sample_order]
            \<and> fetches (snd (lookups 2 (snd ?cb) ''42'')) = []"
    using b c e f g h by (simp add: r2)
  show ?thesis using a b d0 e g0 i1 i2 i3 by simp
qed

text \<open>
  C4 as stated fails on a falsy value written by the subscription callback: the delivery
  of the payload \<^verbatim>\<open>0\<close> on \<^verbatim>\<open>cache.orders.42\<close> stores \<^verbatim>\<open>0\<close>, the read returns it,
  and the next lookup of \<^verbatim>\<open>42\<close> fetches from the origin and returns the fetched order.
\<close>

theorem C4_counterexample:
  "fst (callback empty_world None (delivery ''42'' ''0'')) = Inr ()
   \<and> fst (readOrderFromFile (snd (callback empty_world None (delivery ''42'' ''0''))) ''42'')
       = Inr (JNum 0)
   \<and> fst (getOrder (snd (callback empty_world None (delivery ''42'' ''0''))) ''42'')
       = Inr (orderFromDB ''42'')
   \<and> fetches (snd (getOrder (snd (callback empty_world None (delivery ''42'' ''0''))) ''42''))
       = [''42'']"
  by code_simp

text \<open>
  C5 (a failed write publishes nothing). On a miss of a key (the read returns a falsy
  value) the write of the fetched order fails exactly when the write of the key cannot
  complete on the node. When it fails with an error, the lookup returns that error, no
  publication and no write is recorded, and no file has changed.
\<close>

theorem C5_failed_write_publishes_nothing:
  assumes "readOrderFromFile w K = (Inr v, w1)" and "\<not> truthy v"
  shows "((\<exists>e. fst (writeOrderToFile (emit (OriginFetch K) (console_log (miss_line K) w1)) K
                      (orderFromDB K)) = Inl e)
            = (\<not> write_completes w K))
       \<and> (writeOrderToFile (emit (OriginFetch K) (console_log (miss_line K) w1)) K (orderFromDB K)
            = (Inl e, w2) \<longrightarrow>
            getOrder w K = (Inl e, w2)
            \<and> published w2 = published w
            \<and> written w2 = written w
            \<and> (\<forall>p c. (entries w2 p = Some (File c)) = (entries w p = Some (File c))))"
proof -
  let ?w3 = "emit (OriginFetch K) (console_log (miss_line K) w1)"
  have "(\<exists>e. fst (writeOrderToFile ?w3 K (orderFromDB K)) = Inl e)
        = (fst (writeOrderToFile ?w3 K (orderFromDB K)) \<noteq> Inr ())"
    by (cases "fst (writeOrderToFile ?w3 K (orderFromDB K))") simp_all
  then have a: "(\<exists>e. fst (writeOrderToFile ?w3 K (orderFromDB K)) = Inl e)
                = (\<not> write_completes w K)"
    using write_at_miss[OF assms(1), of "orderFromDB K"] by simp
  have b: "getOrder w K = (Inl e, w2)
            \<and> published w2 = published w
            \<and> written w2 = written w
            \<and> (\<forall>p c. (entries w2 p = Some (File c)) = (entries w p = Some (File c)))"
    if wr: "writeOrderToFile ?w3 K (orderFromDB K) = (Inl e, w2)"
  proof -
    have g: "getOrder w K = (Inl e, w2)"
      using getOrder_miss_write[OF assms] wr by simp
    have t: "trace w2 = trace w @ [ConsoleLog (miss_line K), OriginFetch K]"
      using writeOrderToFile_failed(1)[OF wr] readOrderFromFile_frame(1)[OF assms(1)]
      by (simp add: console_log_def)
    have f: "(entries w2 p = Some (File c)) = (entries w p = Some (File c))" for p c
      using writeOrderToFile_failed(2)[OF wr, of p c] readOrderFromFile_frame(3)[OF assms(1), of p c]
      by (simp add: console_log_def)
    show ?thesis using g f by (simp add: t published_def written_def)
  qed
  show ?thesis using a b by blast
qed

theorem C5_failed_write_publishes_nothing_witness:
  "fst (readOrderFromFile (refusing_world ''42'') ''42'') = Inr JNull
   \<and> \<not> write_completes (refusing_world ''42'') ''42''
   \<and> fst (getOrder (refusing_world ''42'') ''42'') = Inl EACCES
   \<and> published (snd (getOrder (refusing_world ''42'') ''42'')) = []"
proof -
  let ?w1 = "snd (readOrderFromFile (refusing_world ''42'') ''42'')"
  let ?w3 = "emit (OriginFetch ''42'') (console_log (miss_line ''42'') ?w1)"
  have a0: "fst (readOrderFromFile (refusing_world ''42'') ''42'') = Inr JNull" by code_simp
  then have a: "readOrderFromFile (refusing_world ''42'') ''42'' = (Inr JNull, ?w1)"
    by (simp add: prod_eq_iff)
  have b: "\<not> truthy JNull" by simp
  have "fst (writeOrderToFile ?w3 ''42'' (orderFromDB ''42'')) = Inl EACCES" by code_simp
  then have c: "writeOrderToFile ?w3 ''42'' (orderFromDB ''42'')
                = (Inl EACCES, snd (writeOrderToFile ?w3 ''42'' (orderFromDB ''42'')))"
    by (simp add: prod_eq_iff)
  have d: "published (refusing_world ''42'') = []" by (simp add: refusing_world_def published_def)
  have e: "\<not> write_completes (refusing_world ''42'') ''42''" by code_simp
  from C5_failed_write_publishes_nothing[OF a b, of EACCES
         "snd (writeOrderToFile ?w3 ''42'' (orderFromDB ''42''))"]
  show ?thesis using a0 c d e by simp
qed

text \<open>
  C6 (a malformed message), at a failing input. The delivery of the payload \<^verbatim>\<open>{\<close> on
  \<^verbatim>\<open>cache.orders.X\<close>: the callback prints the line of the receipt, then
  \<^verbatim>\<open>JSON.parse\<close> raises \<^verbatim>\<open>SyntaxError\<close> and the exception leaves the callback, with no
  line on the error console and no file written. The other branch of the same callback,
  on a delivery error, prints the error on the error console and returns.
\<close>

theorem C6_malformed_payload_leaves_callback:
  "fst (callback empty_world None (delivery ''X'' ''{'')) = Inl SyntaxError
   \<and> trace (snd (callback empty_world None (delivery ''X'' ''{'')))
       = [ConsoleLog ''Received message for order X: {'']
   \<and> written (snd (callback empty_world None (delivery ''X'' ''{''))) = []
   \<and> fst (callback empty_world (Some ''timeout'') (delivery ''X'' ''{'')) = Inr ()
   \<and> trace (snd (callback empty_world (Some ''timeout'') (delivery ''X'' ''{'')))
       = [ConsoleError ''Error receiving message: timeout'']"
  by code_simp







text \<open>
  C9 (the storage key is the third segment). The subject \<^verbatim>\<open>cache.orders.<key>\<close>
  splits at its dots into \<^verbatim>\<open>cache\<close>, \<^verbatim>\<open>orders\<close> and the segments of the key, and the
  key that the callback derives from it is the third segment, which is the part of the
  key before its first dot. So the derived key equals the published key exactly when the
  key contains no dot. The callback hands every payload that decodes to
  \<open>writeOrderToFile\<close> under the derived key, and when it completes, the one file it
  has written is the entry file of the derived key, with the decoded value.
\<close>

theorem C9_key_is_third_segment:
  "split_on (CHR ''.'') (order_subject K) = ''cache'' # ''orders'' # split_on (CHR ''.'') K
   \<and> subject_orderId (order_subject K) = split_on (CHR ''.'') (order_subject K) ! 2
   \<and> subject_orderId (order_subject K) = takeWhile (\<lambda>c. c \<noteq> CHR ''.'') K
   \<and> ((subject_orderId (order_subject K) = K) = (CHR ''.'' \<notin> set K))
   \<and> (JSON_parse payload = Inr v \<longrightarrow>
        callback w None (delivery K payload)
          = writeOrderToFile
              (console_log (''Received message for order '' @ subject_orderId (order_subject K)
                              @ '': '' @ payload) w)
              (subject_orderId (order_subject K)) v)
   \<and> ((fst (callback w None (delivery K payload)) = Inr ())
        = (\<exists>v. JSON_parse payload = Inr v
              \<and> write_completes w (takeWhile (\<lambda>c. c \<noteq> CHR ''.'') K)))
   \<and> (callback w None (delivery K payload) = (Inr u, w1) \<longrightarrow>
        (\<exists>v. JSON_parse payload = Inr v
           \<and> entries w1 (order_file (takeWhile (\<lambda>c. c \<noteq> CHR ''.'') K))
               = Some (File (JSON_stringify2 v))
           \<and> written w1
               = written w @ [(order_file (takeWhile (\<lambda>c. c \<noteq> CHR ''.'') K), JSON_stringify2 v)]))"
proof -
  have s1: "split_on (CHR ''.'') (''orders'' @ CHR ''.'' # K) = ''orders'' # split_on (CHR ''.'') K"
    by (rule split_on_prefix) simp
  have "split_on (CHR ''.'') (''cache'' @ CHR ''.'' # (''orders'' @ CHR ''.'' # K))
        = ''cache'' # split_on (CHR ''.'') (''orders'' @ CHR ''.'' # K)"
    by (rule split_on_prefix) simp
  then have a: "split_on (CHR ''.'') (order_subject K)
                = ''cache'' # ''orders'' # split_on (CHR ''.'') K"
    using s1 by (simp add: order_subject_def)
  have ne: "split_on (CHR ''.'') K \<noteq> []" by (rule split_on_nonempty)
  have c: "subject_orderId (order_subject K) = takeWhile (\<lambda>c. c \<noteq> CHR ''.'') K"
    unfolding order_subject_def by (rule subject_orderId_cache)
  have "split_on (CHR ''.'') (order_subject K) ! 2 = hd (split_on (CHR ''.'') K)"
    using a ne by (simp add: numeral_2_eq_2 hd_conv_nth)
  then have b: "subject_orderId (order_subject K) = split_on (CHR ''.'') (order_subject K) ! 2"
    using c hd_split_on[of "CHR ''.''" K] by simp
  have d: "(subject_orderId (order_subject K) = K) = (CHR ''.'' \<notin> set K)"
    unfolding c by (auto simp: takeWhile_eq_all_conv)
  have e: "callback w None (delivery K payload)
          = writeOrderToFile
              (console_log (''Received message for order '' @ subject_orderId (order_subject K)
                              @ '': '' @ payload) w)
              (subject_orderId (order_subject K)) v"
    if "JSON_parse payload = Inr v"
    using callback_delivery[OF that, of w K] unfolding c by simp
  have f: "\<exists>v. JSON_parse payload = Inr v
           \<and> entries w1 (order_file (takeWhile (\<lambda>c. c \<noteq> CHR ''.'') K))
               = Some (File (JSON_stringify2 v))
           \<and> written w1
               = written w @ [(order_file (takeWhile (\<lambda>c. c \<noteq> CHR ''.'') K), JSON_stringify2 v)]"
    if "callback w None (delivery K payload) = (Inr u, w1)"
    using callback_stored[OF that] by blast
  have g: "(fst (callback w None (delivery K payload)) = Inr ())
        = (\<exists>v. JSON_parse payload = Inr v
              \<and> write_completes w (takeWhile (\<lambda>c. c \<noteq> CHR ''.'') K))"
    by (rule callback_completes)
  show ?thesis using a b c d e f g by blast
qed

theorem C9_key_is_third_segment_witness:
  "subject_orderId (order_subject ''a.b'') = ''a''
   \<and> fst (callback empty_world None (delivery ''a.b'' ''{}'')) = Inr ()
   \<and> entries (snd (callback empty_world None (delivery ''a.b'' ''{}''))) (order_file ''a'')
       = Some (File ''{}'')
   \<and> written (snd (callback empty_world None (delivery ''a.b'' ''{}'')))
       = [(order_file ''a'', ''{}'')]"
proof -
  let ?cb = "callback empty_world None (delivery ''a.b'' ''{}'')"
  have p: "JSON_parse ''{}'' = Inr (JObj [])" by code_simp
  have s: "JSON_stringify2 (JObj []) = ''{}''" by code_simp
  have c0: "fst ?cb = Inr ()" by code_simp
  then have c: "?cb = (Inr (), snd ?cb)" by (simp add: prod_eq_iff)
  have d: "written empty_world = []" by (simp add: empty_world_def written_def)
  note T = C9_key_is_third_segment[of "''a.b''" "''{}''" "JObj []" empty_world "()" "snd ?cb"]
  from T have k: "subject_orderId (order_subject ''a.b'') = ''a''" by simp
  from T have "?cb = (Inr (), snd ?cb) \<longrightarrow>
        (\<exists>v. JSON_parse ''{}'' = Inr v
           \<and> entries (snd ?cb) (order_file (takeWhile (\<lambda>c. c \<noteq> CHR ''.'') ''a.b''))
               = Some (File (JSON_stringify2 v))
           \<and> written (snd ?cb)
               = written empty_world
                 @ [(order_file (takeWhile (\<lambda>c. c \<noteq> CHR ''.'') ''a.b''), JSON_stringify2 v)])"
    by (elim conjE)
  then obtain v where v: "JSON_parse ''{}'' = Inr v"
      "entries (snd ?cb) (order_file (takeWhile (\<lambda>c. c \<noteq> CHR ''.'') ''a.b''))
         = Some (File (JSON_stringify2 v))"
      "written (snd ?cb)
         = written empty_world
           @ [(order_file (takeWhile (\<lambda>c. c \<noteq> CHR ''.'') ''a.b''), JSON_stringify2 v)]"
    using c by blast
  have "v = JObj []" using v(1) p by simp
  then have "entries (snd ?cb) (order_file ''a'') = Some (File ''{}'')"
    "written (snd ?cb) = [(order_file ''a'', ''{}'')]"
    using v(2,3) s d by simp_all
  then show ?thesis using k c0 by simp
qed




end
